theory Spec2Isabelle
  imports Main "HOL-Library.Sublist"
begin

section \<open>Python strings\<close>

text \<open>
  A Python \<open>str\<close> is modelled as a \<open>string\<close>, one \<open>char\<close> per character, read as
  ASCII: case conversion touches the letters A-Z and a-z only, and the white space
  of \<open>str.strip\<close>, \<open>str.split\<close> and the regular expression class \<open>\s\<close> is the set of
  code points 9-13 and 28-32. A \<open>char\<close> above 127 is an opaque symbol without case.
\<close>

definition is_upper :: "char \<Rightarrow> bool" where
  "is_upper c = (let n = (of_char c :: nat) in 65 \<le> n \<and> n \<le> 90)"

definition is_lower :: "char \<Rightarrow> bool" where
  "is_lower c = (let n = (of_char c :: nat) in 97 \<le> n \<and> n \<le> 122)"

definition is_digit :: "char \<Rightarrow> bool" where
  "is_digit c = (let n = (of_char c :: nat) in 48 \<le> n \<and> n \<le> 57)"

definition is_space :: "char \<Rightarrow> bool" where
  "is_space c = (let n = (of_char c :: nat) in (9 \<le> n \<and> n \<le> 13) \<or> (28 \<le> n \<and> n \<le> 32))"

text \<open>The class \<open>\w\<close> of the module \<open>re\<close>: letters, digits and the underscore.\<close>

definition is_word :: "char \<Rightarrow> bool" where
  "is_word c = (is_upper c \<or> is_lower c \<or> is_digit c \<or> c = CHR ''_'')"

definition lower_char :: "char \<Rightarrow> char" where
  "lower_char c = (if is_upper c then char_of (of_char c + (32::nat)) else c)"

definition upper_char :: "char \<Rightarrow> char" where
  "upper_char c = (if is_lower c then char_of (of_char c - (32::nat)) else c)"

text \<open>\<open>s.lower()\<close>\<close>

definition py_lower :: "string \<Rightarrow> string" where
  "py_lower s = map lower_char s"

text \<open>\<open>s.strip()\<close>\<close>

definition py_strip :: "string \<Rightarrow> string" where
  "py_strip s = rev (dropWhile is_space (rev (dropWhile is_space s)))"

text \<open>\<open>s.split()\<close>: the maximal runs of characters that are not white space.\<close>

fun split_ws :: "string \<Rightarrow> string \<Rightarrow> string list" where
  "split_ws cur [] = (if cur = [] then [] else [cur])"
| "split_ws cur (c # cs) =
     (if is_space c then (if cur = [] then split_ws [] cs else cur # split_ws [] cs)
      else split_ws (cur @ [c]) cs)"

definition py_split :: "string \<Rightarrow> string list" where
  "py_split s = split_ws [] s"

text \<open>\<open>sep.join(words)\<close>\<close>

fun py_join :: "string \<Rightarrow> string list \<Rightarrow> string" where
  "py_join sep [] = []"
| "py_join sep [w] = w"
| "py_join sep (w # v # ws) = w @ sep @ py_join sep (v # ws)"

text \<open>\<open>s.replace(old, new)\<close> for one-character \<open>old\<close> and \<open>new\<close>.\<close>

definition py_replace :: "string \<Rightarrow> char \<Rightarrow> char \<Rightarrow> string" where
  "py_replace s old new = map (\<lambda>c. if c = old then new else c) s"

text \<open>
  \<open>sub in s\<close> is \<^const>\<open>sublist\<close> \<open>sub s\<close>. \<open>s.find(sub)\<close> is the index of the first
  occurrence, or -1; \<open>s[:n]\<close> counts a negative \<open>n\<close> from the end.
\<close>

fun find_from :: "nat \<Rightarrow> string \<Rightarrow> string \<Rightarrow> int" where
  "find_from i sub [] = (if sub = [] then int i else - 1)"
| "find_from i sub (c # cs) =
     (if prefix sub (c # cs) then int i else find_from (Suc i) sub cs)"

definition py_find :: "string \<Rightarrow> string \<Rightarrow> int" where
  "py_find s sub = find_from 0 sub s"

definition py_slice_to :: "string \<Rightarrow> int \<Rightarrow> string" where
  "py_slice_to s n = (if n < 0 then take (nat (int (length s) + n)) s else take (nat n) s)"

section \<open>The regular expressions of the module \<open>re\<close>\<close>

text \<open>
  The fragment of the pattern language that the three fallback patterns and the
  capitalised-word scan are written in. A match is computed as a backtracking matcher
  computes it: \<open>rmatch\<close> lists, in the order in which backtracking tries them, the
  states a pattern can end in; the head of the list is the match that is found.
  A state is the character before the current position (for \<open>\b\<close>) and the rest of
  the subject.
\<close>

datatype citem = Rng char char | Chr char | Space

datatype regex =
    Cls "citem list"
  | Lit string
  | WordB
  | Eos
  | Seq regex regex
  | Alt regex regex
  | Opt regex
  | Star regex
  | Plus regex
  | PlusLazy regex

type_synonym mstate = "char option \<times> string"

fun item_has :: "citem \<Rightarrow> char \<Rightarrow> bool" where
  "item_has (Rng a b) c = ((of_char a :: nat) \<le> of_char c \<and> (of_char c :: nat) \<le> of_char b)"
| "item_has (Chr a) c = (c = a)"
| "item_has Space c = is_space c"

text \<open>With \<open>re.IGNORECASE\<close> a class holds a character when it holds either case of it.\<close>

definition in_class :: "bool \<Rightarrow> citem list \<Rightarrow> char \<Rightarrow> bool" where
  "in_class ic items c =
     (list_ex (\<lambda>i. item_has i c) items \<or>
      (ic \<and> (list_ex (\<lambda>i. item_has i (lower_char c)) items \<or>
             list_ex (\<lambda>i. item_has i (upper_char c)) items)))"

fun lit_match :: "bool \<Rightarrow> string \<Rightarrow> char option \<Rightarrow> string \<Rightarrow> mstate list" where
  "lit_match ic [] p s = [(p, s)]"
| "lit_match ic (l # ls) p [] = []"
| "lit_match ic (l # ls) p (c # cs) =
     (if c = l \<or> (ic \<and> lower_char c = lower_char l) then lit_match ic ls (Some c) cs else [])"

text \<open>\<open>\b\<close>: exactly one of the two neighbouring positions holds a word character.\<close>

definition at_boundary :: "mstate \<Rightarrow> bool" where
  "at_boundary st =
     ((case fst st of None \<Rightarrow> False | Some c \<Rightarrow> is_word c) \<noteq>
      (case snd st of [] \<Rightarrow> False | c # _ \<Rightarrow> is_word c))"

text \<open>\<open>$\<close> without \<open>re.MULTILINE\<close>: the end, or just before a final newline.\<close>

definition at_end :: "mstate \<Rightarrow> bool" where
  "at_end st = (snd st = [] \<or> snd st = [CHR 0x0A])"

text \<open>
  Repetition: the greedy form tries one more iteration before it tries to stop, the
  lazy form the other way round. Only an iteration that consumes a character is
  repeated.
\<close>

function iter_greedy :: "(mstate \<Rightarrow> mstate list) \<Rightarrow> mstate \<Rightarrow> mstate list" where
  "iter_greedy f st =
     concat (map (iter_greedy f) (filter (\<lambda>s. length (snd s) < length (snd st)) (f st))) @ [st]"
  by pat_completeness auto
termination
  by (relation "measure (\<lambda>(f, st). length (snd st))") auto

function iter_lazy :: "(mstate \<Rightarrow> mstate list) \<Rightarrow> mstate \<Rightarrow> mstate list" where
  "iter_lazy f st =
     st # concat (map (iter_lazy f) (filter (\<lambda>s. length (snd s) < length (snd st)) (f st)))"
  by pat_completeness auto
termination
  by (relation "measure (\<lambda>(f, st). length (snd st))") auto

primrec rmatch :: "bool \<Rightarrow> regex \<Rightarrow> mstate \<Rightarrow> mstate list" where
  "rmatch ic (Cls items) st =
     (case snd st of [] \<Rightarrow> [] | c # cs \<Rightarrow> if in_class ic items c then [(Some c, cs)] else [])"
| "rmatch ic (Lit l) st = lit_match ic l (fst st) (snd st)"
| "rmatch ic WordB st = (if at_boundary st then [st] else [])"
| "rmatch ic Eos st = (if at_end st then [st] else [])"
| "rmatch ic (Seq r1 r2) st = concat (map (rmatch ic r2) (rmatch ic r1 st))"
| "rmatch ic (Alt r1 r2) st = rmatch ic r1 st @ rmatch ic r2 st"
| "rmatch ic (Opt r) st = rmatch ic r st @ [st]"
| "rmatch ic (Star r) st = iter_greedy (rmatch ic r) st"
| "rmatch ic (Plus r) st = concat (map (iter_greedy (rmatch ic r)) (rmatch ic r st))"
| "rmatch ic (PlusLazy r) st = concat (map (iter_lazy (rmatch ic r)) (rmatch ic r st))"

fun seqs :: "regex list \<Rightarrow> regex" where
  "seqs [] = Lit []"
| "seqs [r] = r"
| "seqs (r # rs) = Seq r (seqs rs)"

fun alts :: "regex list \<Rightarrow> regex" where
  "alts [] = Cls []"
| "alts [r] = r"
| "alts (r # rs) = Alt r (alts rs)"

text \<open>
  A pattern with one capturing group that every match goes through: what stands
  before the group, the group, and what stands after it.
\<close>

record pattern =
  cue :: regex
  phrase :: regex
  stop :: regex

definition consumed :: "mstate \<Rightarrow> mstate \<Rightarrow> string" where
  "consumed s1 s2 = take (length (snd s1) - length (snd s2)) (snd s1)"

text \<open>The text of group 1 in every way the pattern matches at a state, in backtracking order.\<close>

definition match_pattern :: "bool \<Rightarrow> pattern \<Rightarrow> mstate \<Rightarrow> string list" where
  "match_pattern ic p st =
     concat (map (\<lambda>s1.
       concat (map (\<lambda>s2. map (\<lambda>s3. consumed s1 s2) (rmatch ic (stop p) s2))
                   (rmatch ic (phrase p) s1)))
       (rmatch ic (cue p) st))"

text \<open>\<open>re.search(pattern, s, flags).group(1)\<close>, or \<open>None\<close> when nothing matches.\<close>

fun search_group :: "bool \<Rightarrow> pattern \<Rightarrow> char option \<Rightarrow> string \<Rightarrow> string option" where
  "search_group ic p prev [] =
     (case match_pattern ic p (prev, []) of g # _ \<Rightarrow> Some g | [] \<Rightarrow> None)"
| "search_group ic p prev (c # cs) =
     (case match_pattern ic p (prev, c # cs) of g # _ \<Rightarrow> Some g
      | [] \<Rightarrow> search_group ic p (Some c) cs)"

definition re_search_group :: "bool \<Rightarrow> pattern \<Rightarrow> string \<Rightarrow> string option" where
  "re_search_group ic p s = search_group ic p None s"

text \<open>
  \<open>re.findall(r, s)\<close> for a pattern without groups: the texts of the leftmost matches
  that do not overlap. After an empty match the scan moves on by one character.
\<close>

function findall_from :: "bool \<Rightarrow> regex \<Rightarrow> char option \<Rightarrow> string \<Rightarrow> string list" where
  "findall_from ic r prev s =
     (case rmatch ic r (prev, s) of
        m # _ \<Rightarrow>
          if length (snd m) < length s then consumed (prev, s) m # findall_from ic r (fst m) (snd m)
          else [] # (case s of [] \<Rightarrow> [] | c # cs \<Rightarrow> findall_from ic r (Some c) cs)
      | [] \<Rightarrow> (case s of [] \<Rightarrow> [] | c # cs \<Rightarrow> findall_from ic r (Some c) cs))"
  by pat_completeness auto
termination
  by (relation "measure (\<lambda>(ic, r, prev, s). length s)") auto

definition re_findall :: "bool \<Rightarrow> regex \<Rightarrow> string \<Rightarrow> string list" where
  "re_findall ic r s = findall_from ic r None s"

section \<open>Location extraction\<close>

subsection \<open>The regular-expression fallback\<close>

definition spaces :: regex where
  "spaces = Plus (Cls [Space])"

definition upper_cls :: regex where
  "upper_cls = Cls [Rng CHR ''A'' CHR ''Z'']"

definition letter_cls :: regex where
  "letter_cls = Cls [Rng CHR ''A'' CHR ''Z'', Rng CHR ''a'' CHR ''z'']"

text \<open>\<open>(?:[,.!?]|$)\<close>\<close>

definition stop_re :: regex where
  "stop_re = Alt (Cls [Chr CHR '','', Chr CHR ''.'', Chr CHR ''!'', Chr CHR ''?'']) Eos"

text \<open>\<open>(?:in|at|to|near)\<close>\<close>

definition prep_re :: regex where
  "prep_re = alts [Lit ''in'', Lit ''at'', Lit ''to'', Lit ''near'']"

text \<open>\<open>[A-Z][A-Za-z\s]+?\<close>\<close>

definition lazy_phrase :: regex where
  "lazy_phrase =
     Seq upper_cls (PlusLazy (Cls [Rng CHR ''A'' CHR ''Z'', Rng CHR ''a'' CHR ''z'', Space]))"

text \<open>
  \<^verbatim>\<open>\b(?:visit|go|travel|trip)\s+(?:some\s+)?(?:places\s+)?(?:in|at|to|near)\s+([A-Z][A-Za-z\s]+?)(?:[,.!?]|$)\<close>
\<close>

definition pattern1 :: pattern where
  "pattern1 =
     \<lparr>cue = seqs [WordB, alts [Lit ''visit'', Lit ''go'', Lit ''travel'', Lit ''trip''], spaces,
                   Opt (Seq (Lit ''some'') spaces), Opt (Seq (Lit ''places'') spaces),
                   prep_re, spaces],
      phrase = lazy_phrase,
      stop = stop_re\<rparr>"

text \<open>\<^verbatim>\<open>\b(?:in|at|to|near)\s+([A-Z][A-Za-z\s]+?)(?:[,.!?]|$)\<close>\<close>

definition pattern2 :: pattern where
  "pattern2 = \<lparr>cue = seqs [WordB, prep_re, spaces], phrase = lazy_phrase, stop = stop_re\<rparr>"

text \<open>
  \<^verbatim>\<open>\b(?:visit|go|travel)\s+(?:to\s+)?([A-Z][A-Za-z]+(?:\s+[A-Z][A-Za-z]+)?)(?:[,.!?]|$)\<close>
\<close>

definition pattern3 :: pattern where
  "pattern3 =
     \<lparr>cue = seqs [WordB, alts [Lit ''visit'', Lit ''go'', Lit ''travel''], spaces,
                   Opt (Seq (Lit ''to'') spaces)],
      phrase = seqs [upper_cls, Plus letter_cls,
                     Opt (seqs [spaces, upper_cls, Plus letter_cls])],
      stop = stop_re\<rparr>"

definition patterns :: "pattern list" where
  "patterns = [pattern1, pattern2, pattern3]"

text \<open>\<^verbatim>\<open>[A-Z][a-zA-Z]+(?:\s+[A-Z][a-zA-Z]+)*\<close>\<close>

definition capitals_re :: regex where
  "capitals_re =
     seqs [upper_cls, Plus letter_cls, Star (seqs [spaces, upper_cls, Plus letter_cls])]"

definition filler_words :: "string list" where
  "filler_words = [''some'', ''places'', ''any'', ''the'', ''many'', ''few'', ''several'']"

definition NON_LOCATIONS :: "string list" where
  "NON_LOCATIONS = [''ok'', ''yes'', ''no'', ''hi'', ''hey'', ''hello'', ''thanks'', ''i'']"

text \<open>The clean-up of a matched group: strip, drop the filler words, join with one space.\<close>

definition clean_candidate :: "string \<Rightarrow> string" where
  "clean_candidate g =
     (let candidate = py_strip g;
          words = py_split candidate;
          words = filter (\<lambda>w. py_lower w \<notin> set filler_words) words
      in py_strip (py_join '' '' words))"

text \<open>
  The loop over the patterns, all searched with \<open>re.IGNORECASE\<close>. A pattern that does
  not match, or whose cleaned group is not longer than two characters, passes on to
  the next pattern.
\<close>

fun try_patterns :: "pattern list \<Rightarrow> string \<Rightarrow> string option" where
  "try_patterns [] text_clean = None"
| "try_patterns (p # ps) text_clean =
     (case re_search_group True p text_clean of
        Some g \<Rightarrow>
          (let candidate = clean_candidate g
           in if candidate \<noteq> [] \<and> length candidate > 2 then Some (py_lower candidate)
              else try_patterns ps text_clean)
      | None \<Rightarrow> try_patterns ps text_clean)"

text \<open>The loop over the capitalised runs: the first one that is not a stop word.\<close>

fun first_location :: "string list \<Rightarrow> string option" where
  "first_location [] = None"
| "first_location (cap # caps) =
     (if py_lower cap \<notin> set NON_LOCATIONS then Some (py_lower cap) else first_location caps)"

definition extract_location_fallback :: "string \<Rightarrow> string option" where
  "extract_location_fallback text =
     (let text_norm = py_replace text (CHR 0x27) (CHR 0x27);
          text_clean = py_strip text_norm
      in case try_patterns patterns text_clean of
           Some location \<Rightarrow> Some location
         | None \<Rightarrow> first_location (rev (re_findall False capitals_re text_norm)))"

subsection \<open>Named-entity recognition\<close>

text \<open>
  The spaCy model is a collaborator: it is a parameter of the model, \<open>None\<close> when the
  model could not be loaded. Of the document it returns, the code reads the entities,
  each with its text and its label.
\<close>

type_synonym entity = "string \<times> string"
type_synonym ner_model = "string \<Rightarrow> entity list"

definition location_keywords :: "string list" where
  "location_keywords = [''in'', ''at'', ''to'', ''near'', ''visit'', ''go'', ''travel'', ''trip'']"

definition keyword_before :: "string \<Rightarrow> string \<Rightarrow> bool" where
  "keyword_before text_lower loc =
     (let loc_pos = py_find text_lower (py_lower loc);
          pre = py_slice_to text_lower loc_pos
      in list_ex (\<lambda>keyword. sublist keyword pre) location_keywords)"

fun first_keyword_loc :: "string \<Rightarrow> string list \<Rightarrow> string option" where
  "first_keyword_loc text_lower [] = None"
| "first_keyword_loc text_lower (loc # locs) =
     (if keyword_before text_lower loc then Some (py_lower loc)
      else first_keyword_loc text_lower locs)"

text \<open>\<open>[ent.text for ent in doc.ents if ent.label_ in ["GPE", "LOC"]]\<close>\<close>

definition entity_locations :: "entity list \<Rightarrow> string list" where
  "entity_locations ents = map fst (filter (\<lambda>ent. snd ent \<in> set [''GPE'', ''LOC'']) ents)"

definition extract_location_nlp :: "ner_model option \<Rightarrow> string \<Rightarrow> string option" where
  "extract_location_nlp nlp text =
     (case nlp of
        None \<Rightarrow> extract_location_fallback text
      | Some model \<Rightarrow>
          (let locations = entity_locations (model text)
           in if locations \<noteq> [] then
                (case first_keyword_loc (py_lower text) locations of
                   Some location \<Rightarrow> Some location
                 | None \<Rightarrow> Some (py_lower (last locations)))
              else extract_location_fallback text))"

definition extract_location :: "ner_model option \<Rightarrow> string \<Rightarrow> string option" where
  "extract_location nlp text = extract_location_nlp nlp text"

section \<open>Intent detection\<close>

definition weather_keywords :: "string list" where
  "weather_keywords =
     [''weather'', ''temperature'', ''climate'', ''rain'', ''snow'',
      ''sunny'', ''forecast'', ''humidity'', ''wind'']"

definition places_keywords :: "string list" where
  "places_keywords =
     [''places'', ''attractions'', ''visit'', ''tourist'', ''things to do'',
      ''plan my trip'', ''plan my visit'', ''sightseeing'', ''travel guide'',
      ''where to go'']"

definition detect_intent :: "string \<Rightarrow> bool \<times> bool" where
  "detect_intent query =
     (let q = py_lower query;
          wants_weather = list_ex (\<lambda>k. sublist k q) weather_keywords;
          wants_places = list_ex (\<lambda>k. sublist k q) places_keywords;
          wants_places = (if \<not> (wants_weather \<or> wants_places) then True else wants_places)
      in (wants_weather, wants_places))"

section \<open>The orchestrator\<close>

text \<open>
  The two agents are collaborators that turn a location into a text; they are
  parameters. What \<open>handle_user_query\<close> returns is modelled together with the agent
  calls it made, in the order it made them.
\<close>

datatype agent_call = WeatherCall string | PlacesCall string

record outcome =
  reply :: string
  calls :: "agent_call list"

definition no_location_message :: string where
  "no_location_message =
     ''I'm not sure which location you are referring to. Please provide the city name.''"

definition no_intent_message :: string where
  "no_intent_message =
     ''Please ask about the weather or places to visit for a specific location.''"

text \<open>\<open>not location\<close>: true of \<open>None\<close> and of the empty string.\<close>

definition falsy :: "string option \<Rightarrow> bool" where
  "falsy location = (case location of None \<Rightarrow> True | Some l \<Rightarrow> l = [])"

text \<open>The agent dispatch: the list \<open>responses\<close> and the calls behind it.\<close>

definition dispatch ::
  "(string \<Rightarrow> string) \<Rightarrow> (string \<Rightarrow> string) \<Rightarrow> string \<Rightarrow> bool \<times> bool \<Rightarrow> string list \<times> agent_call list" where
  "dispatch get_weather_info get_places_info location intent =
     (let (wants_weather, wants_places) = intent;
          (responses, log) = ([], []);
          (responses, log) =
            (if wants_weather
             then (responses @ [get_weather_info location], log @ [WeatherCall location])
             else (responses, log));
          (responses, log) =
            (if wants_places
             then (responses @ [get_places_info location], log @ [PlacesCall location])
             else (responses, log))
      in (responses, log))"

definition handle_user_query ::
  "ner_model option \<Rightarrow> (string \<Rightarrow> string) \<Rightarrow> (string \<Rightarrow> string) \<Rightarrow> string \<Rightarrow> outcome" where
  "handle_user_query nlp get_weather_info get_places_info query =
     (let location = extract_location nlp query
      in if falsy location then \<lparr>reply = no_location_message, calls = []\<rparr>
         else
           (let (responses, log) =
                  dispatch get_weather_info get_places_info (the location) (detect_intent query)
            in if responses = [] then \<lparr>reply = no_intent_message, calls = log\<rparr>
               else \<lparr>reply = py_join [CHR 0x0A, CHR 0x0A] responses, calls = log\<rparr>))"

section \<open>Notions of the specification\<close>

text \<open>The lowercased text of a query contains at least one keyword of a list.\<close>

definition contains_keyword :: "string list \<Rightarrow> string \<Rightarrow> bool" where
  "contains_keyword keywords query = list_ex (\<lambda>k. sublist k (py_lower query)) keywords"

text \<open>
  The contract of the entity recogniser that the orchestrator relies on: an entity is
  a span of the text it was found in, so its text is not empty.
\<close>

definition entities_nonempty :: "ner_model option \<Rightarrow> string \<Rightarrow> bool" where
  "entities_nonempty nlp text =
     (case nlp of None \<Rightarrow> True | Some model \<Rightarrow> list_all (\<lambda>ent. fst ent \<noteq> []) (model text))"

text \<open>
  The regular-expression tier as the specification words it: the first pattern that
  matches decides, and its cleaned phrase is returned when it is longer than two
  characters.
\<close>

definition first_match_wins :: "pattern list \<Rightarrow> string \<Rightarrow> string option" where
  "first_match_wins ps text_clean =
     (case List.find (\<lambda>p. re_search_group True p text_clean \<noteq> None) ps of
        None \<Rightarrow> None
      | Some p \<Rightarrow>
          (case re_search_group True p text_clean of
             None \<Rightarrow> None
           | Some g \<Rightarrow>
               if length (clean_candidate g) > 2 then Some (py_lower (clean_candidate g))
               else None))"

text \<open>A letter of either case.\<close>

definition is_letter :: "char \<Rightarrow> bool" where
  "is_letter c = (is_upper c \<or> is_lower c)"

text \<open>
  The words of a matched phrase that are not filler words, compared in lower case.
\<close>

definition kept_words :: "string \<Rightarrow> string list" where
  "kept_words g = filter (\<lambda>w. py_lower w \<notin> set filler_words) (py_split g)"

text \<open>
  The phrase that a pattern finds in the text, with the filler words removed and the
  words that remain joined by single blanks.
\<close>

definition filtered_phrase :: "pattern \<Rightarrow> string \<Rightarrow> string option" where
  "filtered_phrase p t = map_option (\<lambda>g. py_join '' '' (kept_words g)) (re_search_group True p t)"

text \<open>
  A phrase follows a cue: it stands in the text after a cue word, in either case and
  beginning where a word can begin, and white space; after the phrase comes one of
  \<open>,.!?\<close> or the end of the text (or a final newline).
\<close>

definition cue_words :: "string list" where
  "cue_words = [''visit'', ''go'', ''travel'', ''in'', ''at'', ''to'', ''near'']"

definition follows_cue :: "string \<Rightarrow> string \<Rightarrow> bool" where
  "follows_cue t g =
     (\<exists>pre cue sp post.
        t = pre @ cue @ sp @ g @ post \<and>
        \<not> (pre \<noteq> [] \<and> is_word (last pre)) \<and>
        py_lower cue \<in> set cue_words \<and>
        sp \<noteq> [] \<and> list_all is_space sp \<and>
        (post = [] \<or> post = [CHR 0x0A] \<or> hd post \<in> set '',.!?''))"

text \<open>A phrase begins with a letter and consists of letters and white space.\<close>

definition phrase_shape :: "string \<Rightarrow> bool" where
  "phrase_shape g = (g \<noteq> [] \<and> is_letter (hd g) \<and> list_all (\<lambda>c. is_letter c \<or> is_space c) g)"

text \<open>
  The preference among entities as the specification words it: an entity is preceded
  by a keyword when the keyword stands in the lowercased text somewhere before a place
  where the entity's lowercased text stands; the first such entity is preferred, and
  the last entity when there is none.
\<close>

definition preceded_by_keyword :: "string \<Rightarrow> string \<Rightarrow> bool" where
  "preceded_by_keyword text loc =
     list_ex (\<lambda>i. prefix (py_lower loc) (drop i (py_lower text)) \<and>
                  list_ex (\<lambda>keyword. sublist keyword (take i (py_lower text))) location_keywords)
       [0 ..< Suc (length text)]"

definition preferred_entity :: "string \<Rightarrow> string list \<Rightarrow> string" where
  "preferred_entity text locations =
     (case List.find (preceded_by_keyword text) locations of
        Some loc \<Rightarrow> py_lower loc
      | None \<Rightarrow> py_lower (last locations))"

section \<open>Notions of the proofs\<close>

text \<open>
  The character before the position reached after \<open>w\<close> has been read; words without
  white space; a position where a word can begin; what the front part of a pattern
  has read when it ends in a cue word and white space.
\<close>

definition lastc :: "char option \<Rightarrow> string \<Rightarrow> char option" where
  "lastc p w = (if w = [] then p else Some (last w))"

definition words_ok :: "string list \<Rightarrow> bool" where
  "words_ok ws = list_all (\<lambda>w. w \<noteq> [] \<and> list_all (\<lambda>c. \<not> is_space c) w) ws"

definition word_start :: "string \<Rightarrow> bool" where
  "word_start pre = (\<not> (pre \<noteq> [] \<and> is_word (last pre)))"

definition cue_found :: "string \<Rightarrow> mstate \<Rightarrow> mstate \<Rightarrow> bool" where
  "cue_found pre st s1 =
     (\<exists>a cue sp. snd st = a @ cue @ sp @ snd s1 \<and> word_start (pre @ a) \<and>
        py_lower cue \<in> set cue_words \<and> sp \<noteq> [] \<and> list_all is_space sp)"

section \<open>Strings and intent: basic facts\<close>

lemma lower_char_idem: "lower_char (lower_char c) = lower_char c"
  by (auto simp: lower_char_def is_upper_def Let_def)

lemma py_lower_idem: "py_lower (py_lower s) = py_lower s"
  by (simp add: py_lower_def lower_char_idem)

lemma length_py_lower: "length (py_lower s) = length s"
  by (simp add: py_lower_def)

lemma intent_cases:
  "detect_intent query =
     (contains_keyword weather_keywords query,
      contains_keyword places_keywords query \<or> \<not> contains_keyword weather_keywords query)"
  by (auto simp: detect_intent_def contains_keyword_def Let_def)

section \<open>The matcher consumes what it matches\<close>

text \<open>The three recursive matchers are unfolded by hand, one step at a time.\<close>

declare iter_greedy.simps [simp del] iter_lazy.simps [simp del] findall_from.simps [simp del]


lemma iter_greedy_length:
  "m \<in> set (iter_greedy f st) \<Longrightarrow> length (snd m) \<le> length (snd st)"
proof (induction f st arbitrary: m rule: iter_greedy.induct)
  case (1 f st)
  from "1.prems" consider "m = st"
    | s where "s \<in> set (f st)" "length (snd s) < length (snd st)" "m \<in> set (iter_greedy f s)"
    by (subst (asm) iter_greedy.simps) auto
  then show ?case
  proof cases
    case 1
    then show ?thesis by simp
  next
    case 2
    with "1.IH" [of s m] show ?thesis by simp
  qed
qed

lemma iter_lazy_length:
  "m \<in> set (iter_lazy f st) \<Longrightarrow> length (snd m) \<le> length (snd st)"
proof (induction f st arbitrary: m rule: iter_lazy.induct)
  case (1 f st)
  from "1.prems" consider "m = st"
    | s where "s \<in> set (f st)" "length (snd s) < length (snd st)" "m \<in> set (iter_lazy f s)"
    by (subst (asm) iter_lazy.simps) auto
  then show ?case
  proof cases
    case 1
    then show ?thesis by simp
  next
    case 2
    with "1.IH" [of s m] show ?thesis by simp
  qed
qed

lemma lit_match_length:
  "m \<in> set (lit_match ic l p s) \<Longrightarrow> length (snd m) \<le> length s"
  by (induction ic l p s rule: lit_match.induct) (auto split: if_splits)

lemma rmatch_length:
  "m \<in> set (rmatch ic r st) \<Longrightarrow> length (snd m) \<le> length (snd st)"
proof (induction r arbitrary: m st)
  case (Cls items)
  then show ?case by (cases "snd st") (auto split: if_splits)
next
  case (Lit l)
  then show ?case by (auto dest: lit_match_length)
next
  case (Seq r1 r2)
  from Seq.prems obtain s1 where "s1 \<in> set (rmatch ic r1 st)" "m \<in> set (rmatch ic r2 s1)"
    by auto
  with Seq.IH(1) [of s1 st] Seq.IH(2) [of m s1] show ?case by simp
next
  case (Plus r)
  from Plus.prems obtain s1 where "s1 \<in> set (rmatch ic r st)" "m \<in> set (iter_greedy (rmatch ic r) s1)"
    by auto
  with Plus.IH [of s1 st] iter_greedy_length [of m "rmatch ic r" s1] show ?case by simp
next
  case (PlusLazy r)
  from PlusLazy.prems obtain s1 where "s1 \<in> set (rmatch ic r st)" "m \<in> set (iter_lazy (rmatch ic r) s1)"
    by auto
  with PlusLazy.IH [of s1 st] iter_lazy_length [of m "rmatch ic r" s1] show ?case by simp
next
  case (Star r)
  then show ?case
    by (auto dest: iter_greedy_length)
qed (auto split: if_splits)

lemma rmatch_cls_seq_shorter:
  assumes "m \<in> set (rmatch ic (Seq (Cls items) r) (p, s))"
  shows "length (snd m) < length s"
proof -
  from assms obtain s1 where s1: "s1 \<in> set (rmatch ic (Cls items) (p, s))"
    and m: "m \<in> set (rmatch ic r s1)"
    by auto
  from s1 have "length (snd s1) < length s"
    by (auto split: list.splits if_splits)
  with rmatch_length [OF m] show ?thesis by simp
qed

lemma capitals_re_shorter:
  "m \<in> set (rmatch ic capitals_re (p, s)) \<Longrightarrow> length (snd m) < length s"
  unfolding capitals_re_def upper_cls_def seqs.simps by (rule rmatch_cls_seq_shorter)

lemma findall_nonempty:
  assumes "\<And>m p s. m \<in> set (rmatch ic r (p, s)) \<Longrightarrow> length (snd m) < length s"
    and "cap \<in> set (findall_from ic r p s)"
  shows "cap \<noteq> []"
  using assms
proof (induction ic r p s arbitrary: cap rule: findall_from.induct)
  case (1 ic r prev s)
  note shorter = "1.prems"(1)
  note mem = "1.prems"(2)
  show ?case
  proof (cases "rmatch ic r (prev, s)")
    case Nil
    show ?thesis
    proof (cases s)
      case Nil2: Nil
      from mem Nil Nil2 show ?thesis
        by (subst (asm) findall_from.simps) simp
    next
      case (Cons c cs)
      from mem Nil Cons have "cap \<in> set (findall_from ic r (Some c) cs)"
        by (subst (asm) findall_from.simps) simp
      with "1.IH"(1) [OF Nil Cons] shorter show ?thesis by blast
    qed
  next
    case (Cons m ms)
    then have short: "length (snd m) < length s"
      using shorter [of m prev s] by simp
    from mem Cons short
    have "cap = consumed (prev, s) m \<or> cap \<in> set (findall_from ic r (fst m) (snd m))"
      by (subst (asm) findall_from.simps) simp
    then show ?thesis
    proof
      assume "cap = consumed (prev, s) m"
      with short show ?thesis by (auto simp: consumed_def)
    next
      assume "cap \<in> set (findall_from ic r (fst m) (snd m))"
      with "1.IH"(2) [OF Cons short] shorter show ?thesis by blast
    qed
  qed
qed

section \<open>What the extraction can return\<close>

lemma capitals_nonempty: "cap \<in> set (re_findall False capitals_re text) \<Longrightarrow> cap \<noteq> []"
  unfolding re_findall_def
  by (rule findall_nonempty [where ic = False and r = capitals_re]) (auto dest: capitals_re_shorter)

lemma try_patterns_result:
  "try_patterns ps t = Some v \<Longrightarrow> 2 < length v \<and> py_lower v = v"
  by (induction ps t rule: try_patterns.induct)
    (auto simp: Let_def length_py_lower py_lower_idem split: option.splits if_splits)

lemma first_location_result:
  "first_location caps = Some v \<Longrightarrow> \<exists>cap \<in> set caps. v = py_lower cap"
  by (induction caps) (auto split: if_splits)

lemma fallback_result:
  assumes "extract_location_fallback text = Some v"
  shows "v \<noteq> [] \<and> py_lower v = v"
proof (cases "try_patterns patterns (py_strip (py_replace text (CHR 0x27) (CHR 0x27)))")
  case (Some r)
  with assms have "r = v" by (simp add: extract_location_fallback_def Let_def)
  with try_patterns_result [OF Some] show ?thesis by auto
next
  case None
  with assms have "first_location (rev (re_findall False capitals_re (py_replace text (CHR 0x27) (CHR 0x27)))) = Some v"
    by (simp add: extract_location_fallback_def Let_def)
  from first_location_result [OF this] obtain cap
    where cap: "cap \<in> set (re_findall False capitals_re (py_replace text (CHR 0x27) (CHR 0x27)))"
      and v: "v = py_lower cap"
    by auto
  from capitals_nonempty [OF cap] v show ?thesis
    by (simp add: py_lower_idem) (simp add: py_lower_def)
qed

lemma first_keyword_loc_result:
  "first_keyword_loc low locs = Some v \<Longrightarrow> \<exists>loc \<in> set locs. v = py_lower loc"
  by (induction locs) (auto split: if_splits)

lemma extract_location_nonempty:
  assumes "entities_nonempty nlp text" and "extract_location nlp text = Some v"
  shows "v \<noteq> []"
proof (cases nlp)
  case None
  with assms(2) fallback_result [of "text" v] show ?thesis
    by (simp add: extract_location_def extract_location_nlp_def)
next
  case (Some model)
  define locations where "locations = entity_locations (model text)"
  from assms(1) Some have ne: "\<forall>loc \<in> set locations. loc \<noteq> []"
    by (auto simp: entities_nonempty_def locations_def entity_locations_def list_all_iff)
  from assms(2) Some have res:
    "(if locations \<noteq> [] then
        (case first_keyword_loc (py_lower text) locations of
           Some location \<Rightarrow> Some location
         | None \<Rightarrow> Some (py_lower (last locations)))
      else extract_location_fallback text) = Some v"
    unfolding locations_def by (simp add: extract_location_def extract_location_nlp_def Let_def)
  show ?thesis
  proof (cases "locations = []")
    case True
    with res fallback_result [of "text" v] show ?thesis by simp
  next
    case False
    then have last: "last locations \<in> set locations" by simp
    show ?thesis
    proof (cases "first_keyword_loc (py_lower text) locations")
      case None
      with res False have "v = py_lower (last locations)" by simp
      with last ne show ?thesis by (auto simp: py_lower_def)
    next
      case (Some l)
      with res False have "l = v" by simp
      with first_keyword_loc_result [OF Some] ne show ?thesis by (auto simp: py_lower_def)
    qed
  qed
qed

lemma dispatch_cases:
  "dispatch gw gp loc (ww, wp) =
     ((if ww then [gw loc] else []) @ (if wp then [gp loc] else []),
      (if ww then [WeatherCall loc] else []) @ (if wp then [PlacesCall loc] else []))"
  by (simp add: dispatch_def)

lemma handle_located:
  assumes "extract_location nlp query = Some loc" and "loc \<noteq> []"
  shows "handle_user_query nlp gw gp query =
     (let ww = contains_keyword weather_keywords query;
          wp = contains_keyword places_keywords query \<or> \<not> ww
      in \<lparr>reply = py_join [CHR 0x0A, CHR 0x0A] ((if ww then [gw loc] else []) @ (if wp then [gp loc] else [])),
          calls = (if ww then [WeatherCall loc] else []) @ (if wp then [PlacesCall loc] else [])\<rparr>)"
  using assms
  by (auto simp: handle_user_query_def falsy_def intent_cases dispatch_cases Let_def)

lemma handle_unlocated:
  assumes "extract_location nlp query = None"
  shows "handle_user_query nlp gw gp query = \<lparr>reply = no_location_message, calls = []\<rparr>"
  using assms by (simp add: handle_user_query_def falsy_def)

section \<open>Strip, split and join\<close>

lemma split_ws_all_space:
  "list_all is_space tr \<Longrightarrow> split_ws cur tr = (if cur = [] then [] else [cur])"
  by (induction tr arbitrary: cur) auto

lemma split_ws_trailing:
  "list_all is_space tr \<Longrightarrow> split_ws cur (s @ tr) = split_ws cur s"
  by (induction s arbitrary: cur) (auto simp: split_ws_all_space)

lemma split_ws_leading: "split_ws [] (dropWhile is_space s) = split_ws [] s"
  by (induction s) auto

lemma strip_decomp:
  "\<exists>tr. dropWhile is_space s = py_strip s @ tr \<and> list_all is_space tr"
proof -
  let ?s = "dropWhile is_space s"
  have "rev ?s = takeWhile is_space (rev ?s) @ dropWhile is_space (rev ?s)" by simp
  then have "?s = rev (dropWhile is_space (rev ?s)) @ rev (takeWhile is_space (rev ?s))"
    by (metis rev_append rev_rev_ident)
  moreover have "list_all is_space (rev (takeWhile is_space (rev ?s)))"
    by (auto simp: list_all_iff dest: set_takeWhileD)
  ultimately show ?thesis by (auto simp: py_strip_def)
qed

lemma split_strip: "py_split (py_strip s) = py_split s"
proof -
  from strip_decomp [of s] obtain tr
    where "dropWhile is_space s = py_strip s @ tr" "list_all is_space tr" by blast
  then have "split_ws [] (py_strip s) = split_ws [] (dropWhile is_space s)"
    by (simp add: split_ws_trailing)
  then show ?thesis by (simp add: py_split_def split_ws_leading)
qed

lemma split_ws_words_ok:
  "list_all (\<lambda>c. \<not> is_space c) cur \<Longrightarrow> words_ok (split_ws cur s)"
  by (induction cur s rule: split_ws.induct) (auto simp: words_ok_def)

lemma split_words_ok: "words_ok (py_split s)"
  by (simp add: py_split_def split_ws_words_ok)

lemma kept_words_ok: "words_ok (kept_words g)"
  using split_words_ok [of g] by (auto simp: kept_words_def words_ok_def list_all_iff)

lemma strip_id:
  assumes "s = [] \<or> (\<not> is_space (hd s) \<and> \<not> is_space (last s))"
  shows "py_strip s = s"
proof (cases s rule: rev_cases)
  case Nil
  then show ?thesis by (simp add: py_strip_def)
next
  case (snoc ys y)
  with assms have h: "\<not> is_space (hd s)" and l: "\<not> is_space y" by auto
  from snoc have "s \<noteq> []" by simp
  with h have d: "dropWhile is_space s = s" by (cases s) auto
  from snoc l have "dropWhile is_space (rev s) = rev s" by simp
  with d show ?thesis by (simp add: py_strip_def)
qed

lemma join_ends:
  "words_ok ws \<Longrightarrow> ws \<noteq> [] \<Longrightarrow>
     py_join sep ws \<noteq> [] \<and> hd (py_join sep ws) = hd (hd ws) \<and> last (py_join sep ws) = last (last ws)"
  by (induction sep ws rule: py_join.induct) (auto simp: words_ok_def)

lemma strip_join: "words_ok ws \<Longrightarrow> py_strip (py_join sep ws) = py_join sep ws"
proof (cases ws)
  case Nil
  then show ?thesis by (simp add: py_strip_def)
next
  case (Cons w ws')
  assume ok: "words_ok ws"
  with Cons join_ends [of ws sep] have
    "py_join sep ws \<noteq> []" "hd (py_join sep ws) = hd w" "last (py_join sep ws) = last (last ws)"
    by auto
  moreover from ok Cons have "\<not> is_space (hd w)"
    by (cases w) (auto simp: words_ok_def)
  moreover from ok Cons have "last ws \<in> set ws" by simp
  with ok have "\<not> is_space (last (last ws))"
    by (auto simp: words_ok_def list_all_iff)
  ultimately show ?thesis by (intro strip_id) simp
qed

lemma clean_candidate_kept: "clean_candidate g = py_join '' '' (kept_words g)"
proof -
  have "clean_candidate g = py_strip (py_join '' '' (kept_words g))"
    by (simp add: clean_candidate_def Let_def split_strip kept_words_def)
  then show ?thesis by (simp add: strip_join kept_words_ok)
qed

lemma is_space_lower: "is_space (lower_char c) = is_space c"
  by (auto simp: lower_char_def is_space_def is_upper_def Let_def)

lemma split_ws_lower:
  "split_ws (py_lower cur) (py_lower s) = map py_lower (split_ws cur s)"
  by (induction cur s rule: split_ws.induct) (auto simp: py_lower_def is_space_lower)

lemma split_lower: "py_split (py_lower s) = map py_lower (py_split s)"
  using split_ws_lower [of "[]" s] by (simp add: py_split_def py_lower_def)

lemma split_ws_word:
  "list_all (\<lambda>c. \<not> is_space c) w \<Longrightarrow> split_ws cur (w @ rest) = split_ws (cur @ w) rest"
  by (induction w arbitrary: cur) auto

lemma split_join: "words_ok ws \<Longrightarrow> py_split (py_join '' '' ws) = ws"
proof (induction "'' ''" ws rule: py_join.induct)
  case 1
  then show ?case by (simp add: py_split_def)
next
  case (2 w)
  then show ?case
    using split_ws_word [of w "[]" "[]"] by (simp add: py_split_def words_ok_def)
next
  case (3 w v ws)
  from "3.prems" have w: "w \<noteq> []" "list_all (\<lambda>c. \<not> is_space c) w" and rest: "words_ok (v # ws)"
    by (auto simp: words_ok_def)
  have sp: "is_space CHR '' ''" by (simp add: is_space_def)
  from w sp have "split_ws [] (w @ '' '' @ py_join '' '' (v # ws)) = w # split_ws [] (py_join '' '' (v # ws))"
    using split_ws_word [of w "[]" "'' '' @ py_join '' '' (v # ws)"] by simp
  with "3.hyps" [OF rest] show ?case by (simp add: py_split_def)
qed

lemma lower_join: "py_lower (py_join sep ws) = py_join (py_lower sep) (map py_lower ws)"
  by (induction sep ws rule: py_join.induct) (auto simp: py_lower_def)

lemma lower_words_ok: "words_ok ws \<Longrightarrow> words_ok (map py_lower ws)"
  by (auto simp: words_ok_def list_all_iff py_lower_def is_space_lower)

lemma lowered_phrase_words:
  "py_split (py_lower (py_join '' '' (kept_words g))) = map py_lower (kept_words g)"
  by (simp add: split_lower split_join kept_words_ok)

lemma lowered_phrase_no_filler:
  "w \<in> set (py_split (py_lower (py_join '' '' (kept_words g)))) \<Longrightarrow> w \<notin> set filler_words"
proof -
  assume "w \<in> set (py_split (py_lower (py_join '' '' (kept_words g))))"
  then have "w \<in> set (map py_lower (kept_words g))" by (simp only: lowered_phrase_words)
  then show ?thesis by (auto simp: kept_words_def)
qed

section \<open>Character classes under \<open>re.IGNORECASE\<close>\<close>

lemma of_char_tests: "(of_char CHR ''A'' :: nat) = 65" "(of_char CHR ''Z'' :: nat) = 90"
  "(of_char CHR ''a'' :: nat) = 97" "(of_char CHR ''z'' :: nat) = 122"
  by simp_all

lemma in_upper_cls: "in_class True [Rng CHR ''A'' CHR ''Z''] c \<Longrightarrow> is_letter c"
  by (auto simp: in_class_def is_letter_def is_upper_def is_lower_def lower_char_def
      upper_char_def Let_def split: if_splits)

lemma in_letter_cls:
  "in_class True [Rng CHR ''A'' CHR ''Z'', Rng CHR ''a'' CHR ''z''] c \<Longrightarrow> is_letter c"
  by (auto simp: in_class_def is_letter_def is_upper_def is_lower_def lower_char_def
      upper_char_def Let_def split: if_splits)

lemma in_space_cls: "in_class ic [Space] c \<Longrightarrow> is_space c"
  by (auto simp: in_class_def is_space_def is_upper_def is_lower_def lower_char_def
      upper_char_def Let_def split: if_splits)

lemma in_phrase_cls:
  "in_class True [Rng CHR ''A'' CHR ''Z'', Rng CHR ''a'' CHR ''z'', Space] c \<Longrightarrow>
     is_letter c \<or> is_space c"
  by (auto simp: in_class_def is_letter_def is_space_def is_upper_def is_lower_def lower_char_def
      upper_char_def Let_def split: if_splits)

section \<open>What a match has read\<close>

lemma lastc_append: "lastc (lastc p w1) w2 = lastc p (w1 @ w2)"
  by (simp add: lastc_def)

lemma lastc_simps: "lastc p [] = p" "lastc p (c # w) = lastc (Some c) w" "lastc p [c] = Some c"
  by (simp_all add: lastc_def)

lemma iter_greedy_eats:
  assumes "\<And>s m. m \<in> set (f s) \<Longrightarrow>
             \<exists>w. snd s = w @ snd m \<and> fst m = lastc (fst s) w \<and> list_all P w"
    and "m \<in> set (iter_greedy f st)"
  shows "\<exists>w. snd st = w @ snd m \<and> fst m = lastc (fst st) w \<and> list_all P w"
  using assms
proof (induction f st arbitrary: m rule: iter_greedy.induct)
  case (1 f st)
  note step = "1.prems"(1)
  from "1.prems"(2) consider "m = st"
    | s where "s \<in> set (f st)" "length (snd s) < length (snd st)" "m \<in> set (iter_greedy f s)"
    by (subst (asm) iter_greedy.simps) auto
  then show ?case
  proof cases
    case 1
    then have "snd st = [] @ snd m \<and> fst m = lastc (fst st) [] \<and> list_all P []"
      by (simp add: lastc_def)
    then show ?thesis by blast
  next
    case 2
    from step [OF 2(1)] obtain w1
      where w1: "snd st = w1 @ snd s" "fst s = lastc (fst st) w1" "list_all P w1" by blast
    from 2 have "s \<in> set (filter (\<lambda>s. length (snd s) < length (snd st)) (f st))" by simp
    from "1.IH" [OF this step 2(3)] obtain w2
      where w2: "snd s = w2 @ snd m" "fst m = lastc (fst s) w2" "list_all P w2"
      by blast
    from w1 w2 have "snd st = (w1 @ w2) @ snd m \<and> fst m = lastc (fst st) (w1 @ w2) \<and>
        list_all P (w1 @ w2)"
      by (simp add: lastc_append)
    then show ?thesis by blast
  qed
qed

lemma iter_lazy_eats:
  assumes "\<And>s m. m \<in> set (f s) \<Longrightarrow>
             \<exists>w. snd s = w @ snd m \<and> fst m = lastc (fst s) w \<and> list_all P w"
    and "m \<in> set (iter_lazy f st)"
  shows "\<exists>w. snd st = w @ snd m \<and> fst m = lastc (fst st) w \<and> list_all P w"
  using assms
proof (induction f st arbitrary: m rule: iter_lazy.induct)
  case (1 f st)
  note step = "1.prems"(1)
  from "1.prems"(2) consider "m = st"
    | s where "s \<in> set (f st)" "length (snd s) < length (snd st)" "m \<in> set (iter_lazy f s)"
    by (subst (asm) iter_lazy.simps) auto
  then show ?case
  proof cases
    case 1
    then have "snd st = [] @ snd m \<and> fst m = lastc (fst st) [] \<and> list_all P []"
      by (simp add: lastc_def)
    then show ?thesis by blast
  next
    case 2
    from step [OF 2(1)] obtain w1
      where w1: "snd st = w1 @ snd s" "fst s = lastc (fst st) w1" "list_all P w1" by blast
    from 2 have "s \<in> set (filter (\<lambda>s. length (snd s) < length (snd st)) (f st))" by simp
    from "1.IH" [OF this step 2(3)] obtain w2
      where w2: "snd s = w2 @ snd m" "fst m = lastc (fst s) w2" "list_all P w2"
      by blast
    from w1 w2 have "snd st = (w1 @ w2) @ snd m \<and> fst m = lastc (fst st) (w1 @ w2) \<and>
        list_all P (w1 @ w2)"
      by (simp add: lastc_append)
    then show ?thesis by blast
  qed
qed

lemma lit_match_eats:
  "m \<in> set (lit_match ic l p s) \<Longrightarrow>
     \<exists>w. s = w @ snd m \<and> fst m = lastc p w \<and> length w = length l \<and> (ic \<longrightarrow> py_lower w = py_lower l)"
proof (induction ic l p s rule: lit_match.induct)
  case (1 ic p s)
  then have "s = [] @ snd m \<and> fst m = lastc p [] \<and> length ([]::string) = length ([]::string) \<and>
      (ic \<longrightarrow> py_lower [] = py_lower [])"
    by (simp add: lastc_def)
  then show ?case by blast
next
  case (2 ic l ls p)
  then show ?case by simp
next
  case (3 ic l ls p c cs)
  from "3.prems" have eq: "c = l \<or> (ic \<and> lower_char c = lower_char l)"
    and m: "m \<in> set (lit_match ic ls (Some c) cs)"
    by (auto split: if_splits)
  from "3.IH" [OF eq m] obtain w where w: "cs = w @ snd m" "fst m = lastc (Some c) w"
    "length w = length ls" "ic \<longrightarrow> py_lower w = py_lower ls" by blast
  from eq have "ic \<longrightarrow> lower_char c = lower_char l" by auto
  with w have "c # cs = (c # w) @ snd m \<and> fst m = lastc p (c # w) \<and>
      length (c # w) = length (l # ls) \<and> (ic \<longrightarrow> py_lower (c # w) = py_lower (l # ls))"
    by (simp add: py_lower_def lastc_simps)
  then show ?case by blast
qed

lemma cls_eats:
  "m \<in> set (rmatch ic (Cls items) st) \<Longrightarrow>
     \<exists>c. snd st = c # snd m \<and> fst m = Some c \<and> in_class ic items c"
  by (cases "snd st") (auto split: if_splits)

lemma cls_eats_list:
  assumes "m \<in> set (rmatch ic (Cls items) st)"
  shows "\<exists>w. snd st = w @ snd m \<and> fst m = lastc (fst st) w \<and> list_all (in_class ic items) w"
proof -
  from cls_eats [OF assms] obtain c
    where "snd st = [c] @ snd m \<and> fst m = lastc (fst st) [c] \<and> list_all (in_class ic items) [c]"
    by (auto simp: lastc_def)
  then show ?thesis by blast
qed

lemma plus_cls_eats:
  assumes "m \<in> set (rmatch ic (Plus (Cls items)) st)"
  shows "\<exists>w. snd st = w @ snd m \<and> fst m = Some (last w) \<and> w \<noteq> [] \<and>
           list_all (in_class ic items) w"
proof -
  from assms obtain s where s: "s \<in> set (rmatch ic (Cls items) st)"
    and m: "m \<in> set (iter_greedy (rmatch ic (Cls items)) s)" by auto
  from cls_eats [OF s] obtain c
    where c: "snd st = c # snd s" "fst s = Some c" "in_class ic items c" by blast
  from iter_greedy_eats [of "rmatch ic (Cls items)" "in_class ic items", OF cls_eats_list m]
  obtain w where "snd s = w @ snd m" "fst m = lastc (fst s) w" "list_all (in_class ic items) w"
    by blast
  with c have "snd st = (c # w) @ snd m \<and> fst m = Some (last (c # w)) \<and> c # w \<noteq> [] \<and>
      list_all (in_class ic items) (c # w)"
    by (simp add: lastc_def)
  then show ?thesis by blast
qed

lemma pluslazy_cls_eats:
  assumes "m \<in> set (rmatch ic (PlusLazy (Cls items)) st)"
  shows "\<exists>w. snd st = w @ snd m \<and> fst m = Some (last w) \<and> w \<noteq> [] \<and>
           list_all (in_class ic items) w"
proof -
  from assms obtain s where s: "s \<in> set (rmatch ic (Cls items) st)"
    and m: "m \<in> set (iter_lazy (rmatch ic (Cls items)) s)" by auto
  from cls_eats [OF s] obtain c
    where c: "snd st = c # snd s" "fst s = Some c" "in_class ic items c" by blast
  from iter_lazy_eats [of "rmatch ic (Cls items)" "in_class ic items", OF cls_eats_list m]
  obtain w where "snd s = w @ snd m" "fst m = lastc (fst s) w" "list_all (in_class ic items) w"
    by blast
  with c have "snd st = (c # w) @ snd m \<and> fst m = Some (last (c # w)) \<and> c # w \<noteq> [] \<and>
      list_all (in_class ic items) (c # w)"
    by (simp add: lastc_def)
  then show ?thesis by blast
qed

lemma rmatch_eats:
  "m \<in> set (rmatch ic r st) \<Longrightarrow> \<exists>w. snd st = w @ snd m \<and> fst m = lastc (fst st) w"
proof (induction r arbitrary: m st)
  case (Cls items)
  from cls_eats_list [OF Cls.prems] show ?case by blast
next
  case (Lit l)
  then have "m \<in> set (lit_match ic l (fst st) (snd st))" by simp
  from lit_match_eats [OF this] show ?case by blast
next
  case WordB
  then have "m = st" by (auto split: if_splits)
  then have "snd st = [] @ snd m \<and> fst m = lastc (fst st) []" by (simp add: lastc_def)
  then show ?case by blast
next
  case Eos
  then have "m = st" by (auto split: if_splits)
  then have "snd st = [] @ snd m \<and> fst m = lastc (fst st) []" by (simp add: lastc_def)
  then show ?case by blast
next
  case (Seq r1 r2)
  from Seq.prems obtain s1 where "s1 \<in> set (rmatch ic r1 st)" "m \<in> set (rmatch ic r2 s1)"
    by auto
  with Seq.IH(1) [of s1 st] Seq.IH(2) [of m s1] obtain w1 w2
    where "snd st = w1 @ snd s1" "fst s1 = lastc (fst st) w1"
      "snd s1 = w2 @ snd m" "fst m = lastc (fst s1) w2" by blast
  then have "snd st = (w1 @ w2) @ snd m \<and> fst m = lastc (fst st) (w1 @ w2)"
    by (simp add: lastc_append)
  then show ?case by blast
next
  case (Alt r1 r2)
  from Alt.prems have "m \<in> set (rmatch ic r1 st) \<or> m \<in> set (rmatch ic r2 st)" by auto
  with Alt.IH show ?case by blast
next
  case (Opt r)
  from Opt.prems have "m \<in> set (rmatch ic r st) \<or> m = st" by auto
  then show ?case
  proof
    assume "m \<in> set (rmatch ic r st)"
    then show ?thesis by (rule Opt.IH)
  next
    assume "m = st"
    then have "snd st = [] @ snd m \<and> fst m = lastc (fst st) []" by (simp add: lastc_def)
    then show ?thesis by blast
  qed
next
  case (Star r)
  have step: "\<And>s m. m \<in> set (rmatch ic r s) \<Longrightarrow>
      \<exists>w. snd s = w @ snd m \<and> fst m = lastc (fst s) w \<and> list_all (\<lambda>_. True) w"
    using Star.IH by (simp add: list_all_iff)
  from Star.prems have "m \<in> set (iter_greedy (rmatch ic r) st)" by simp
  from iter_greedy_eats [of "rmatch ic r" "\<lambda>_. True", OF step this] show ?case by blast
next
  case (Plus r)
  from Plus.prems obtain s1 where s1: "s1 \<in> set (rmatch ic r st)"
    and m: "m \<in> set (iter_greedy (rmatch ic r) s1)" by auto
  have step: "\<And>s m. m \<in> set (rmatch ic r s) \<Longrightarrow>
      \<exists>w. snd s = w @ snd m \<and> fst m = lastc (fst s) w \<and> list_all (\<lambda>_. True) w"
    using Plus.IH by (simp add: list_all_iff)
  from iter_greedy_eats [of "rmatch ic r" "\<lambda>_. True", OF step m]
  obtain w2 where w2: "snd s1 = w2 @ snd m" "fst m = lastc (fst s1) w2" by blast
  from Plus.IH [OF s1] obtain w1 where "snd st = w1 @ snd s1" "fst s1 = lastc (fst st) w1"
    by blast
  with w2 have "snd st = (w1 @ w2) @ snd m \<and> fst m = lastc (fst st) (w1 @ w2)"
    by (simp add: lastc_append)
  then show ?case by blast
next
  case (PlusLazy r)
  from PlusLazy.prems obtain s1 where s1: "s1 \<in> set (rmatch ic r st)"
    and m: "m \<in> set (iter_lazy (rmatch ic r) s1)" by auto
  have step: "\<And>s m. m \<in> set (rmatch ic r s) \<Longrightarrow>
      \<exists>w. snd s = w @ snd m \<and> fst m = lastc (fst s) w \<and> list_all (\<lambda>_. True) w"
    using PlusLazy.IH by (simp add: list_all_iff)
  from iter_lazy_eats [of "rmatch ic r" "\<lambda>_. True", OF step m]
  obtain w2 where w2: "snd s1 = w2 @ snd m" "fst m = lastc (fst s1) w2" by blast
  from PlusLazy.IH [OF s1] obtain w1 where "snd st = w1 @ snd s1" "fst s1 = lastc (fst st) w1"
    by blast
  with w2 have "snd st = (w1 @ w2) @ snd m \<and> fst m = lastc (fst st) (w1 @ w2)"
    by (simp add: lastc_append)
  then show ?case by blast
qed

lemma lower_literals:
  "py_lower ''in'' = ''in''" "py_lower ''at'' = ''at''" "py_lower ''to'' = ''to''"
  "py_lower ''near'' = ''near''" "py_lower ''visit'' = ''visit''" "py_lower ''go'' = ''go''"
  "py_lower ''travel'' = ''travel''" "py_lower ''trip'' = ''trip''"
  "py_lower ''some'' = ''some''" "py_lower ''places'' = ''places''"
  by (simp_all add: py_lower_def lower_char_def is_upper_def)

lemma seq_mem:
  "m \<in> set (rmatch ic (Seq r1 r2) st) \<longleftrightarrow> (\<exists>s \<in> set (rmatch ic r1 st). m \<in> set (rmatch ic r2 s))"
  by auto

lemma alt_mem:
  "m \<in> set (rmatch ic (Alt r1 r2) st) \<longleftrightarrow> m \<in> set (rmatch ic r1 st) \<or> m \<in> set (rmatch ic r2 st)"
  by auto

lemma opt_mem:
  "m \<in> set (rmatch ic (Opt r) st) \<longleftrightarrow> m \<in> set (rmatch ic r st) \<or> m = st"
  by auto

lemma lower_char_cases: "lower_char c = c \<or> (is_upper c \<and> is_lower (lower_char c))"
  by (auto simp: lower_char_def is_upper_def is_lower_def Let_def)

lemma upper_char_cases: "upper_char c = c \<or> (is_lower c \<and> is_upper (upper_char c))"
  by (auto simp: upper_char_def is_upper_def is_lower_def Let_def)

lemma in_class_symbol:
  assumes "in_class True (map Chr syms) c" and "list_all (\<lambda>a. \<not> is_upper a \<and> \<not> is_lower a) syms"
  shows "c \<in> set syms"
proof -
  from assms(1) have "c \<in> set syms \<or> lower_char c \<in> set syms \<or> upper_char c \<in> set syms"
    by (auto simp: in_class_def list_ex_iff)
  with assms(2) lower_char_cases [of c] upper_char_cases [of c] show ?thesis
    by (auto simp: list_all_iff)
qed

lemma lit_eats:
  assumes "m \<in> set (rmatch True (Lit l) st)"
  shows "\<exists>w. snd st = w @ snd m \<and> py_lower w = py_lower l"
proof -
  from assms have "m \<in> set (lit_match True l (fst st) (snd st))" by simp
  from lit_match_eats [OF this] show ?thesis by blast
qed

lemma prep_eats:
  assumes "m \<in> set (rmatch True prep_re st)"
  shows "\<exists>w. snd st = w @ snd m \<and> py_lower w \<in> set [''in'', ''at'', ''to'', ''near'']"
proof -
  from assms have "m \<in> set (rmatch True (Lit ''in'') st) \<or> m \<in> set (rmatch True (Lit ''at'') st) \<or>
      m \<in> set (rmatch True (Lit ''to'') st) \<or> m \<in> set (rmatch True (Lit ''near'') st)"
    by (simp only: prep_re_def alts.simps alt_mem)
  then show ?thesis
    using lit_eats [of m "''in''" st] lit_eats [of m "''at''" st] lit_eats [of m "''to''" st]
      lit_eats [of m "''near''" st]
    by (auto simp: lower_literals)
qed

lemma verbs_eats:
  assumes "m \<in> set (rmatch True (alts [Lit ''visit'', Lit ''go'', Lit ''travel'']) st)"
  shows "\<exists>w. snd st = w @ snd m \<and> py_lower w \<in> set [''visit'', ''go'', ''travel'']"
proof -
  from assms have "m \<in> set (rmatch True (Lit ''visit'') st) \<or> m \<in> set (rmatch True (Lit ''go'') st) \<or>
      m \<in> set (rmatch True (Lit ''travel'') st)"
    by (simp only: alts.simps alt_mem)
  then show ?thesis
    using lit_eats [of m "''visit''" st] lit_eats [of m "''go''" st] lit_eats [of m "''travel''" st]
    by (auto simp: lower_literals)
qed

lemma spaces_eats:
  assumes "m \<in> set (rmatch ic spaces st)"
  shows "\<exists>sp. snd st = sp @ snd m \<and> sp \<noteq> [] \<and> list_all is_space sp"
proof -
  from assms have "m \<in> set (rmatch ic (Plus (Cls [Space])) st)" by (simp add: spaces_def)
  from plus_cls_eats [OF this] obtain w
    where "snd st = w @ snd m" "w \<noteq> []" "list_all (in_class ic [Space]) w" by blast
  then have "snd st = w @ snd m \<and> w \<noteq> [] \<and> list_all is_space w"
    by (auto simp: list_all_iff dest: in_space_cls)
  then show ?thesis by blast
qed

lemma word_boundary:
  assumes "m \<in> set (rmatch ic WordB st)"
  shows "m = st \<and> at_boundary st"
  using assms by (auto split: if_splits)

lemma stop_eats:
  assumes "m \<in> set (rmatch True stop_re st)"
  shows "snd st = [] \<or> snd st = [CHR 0x0A] \<or> hd (snd st) \<in> set '',.!?''"
proof -
  from assms have "m \<in> set (rmatch True (Cls (map Chr '',.!?'')) st) \<or> m \<in> set (rmatch True Eos st)"
    by (simp only: stop_re_def alt_mem) simp
  then show ?thesis
  proof
    assume "m \<in> set (rmatch True (Cls (map Chr '',.!?'')) st)"
    from cls_eats [OF this] obtain c where c: "snd st = c # snd m"
      "in_class True (map Chr '',.!?'') c" by blast
    have "list_all (\<lambda>a. \<not> is_upper a \<and> \<not> is_lower a) '',.!?''"
      by (simp add: is_upper_def is_lower_def)
    from in_class_symbol [OF c(2) this] c(1) show ?thesis by simp
  next
    assume "m \<in> set (rmatch True Eos st)"
    then have "at_end st" by (simp split: if_splits)
    then show ?thesis by (auto simp: at_end_def)
  qed
qed

lemma lazy_phrase_eats:
  assumes "m \<in> set (rmatch True lazy_phrase st)"
  shows "\<exists>g. snd st = g @ snd m \<and> phrase_shape g"
proof -
  from assms obtain s where s: "s \<in> set (rmatch True (Cls [Rng CHR ''A'' CHR ''Z'']) st)"
    and m: "m \<in> set (rmatch True (PlusLazy (Cls [Rng CHR ''A'' CHR ''Z'', Rng CHR ''a'' CHR ''z'', Space])) s)"
    by (simp only: lazy_phrase_def upper_cls_def seq_mem) blast
  from cls_eats [OF s] obtain c where c: "snd st = c # snd s" "in_class True [Rng CHR ''A'' CHR ''Z''] c"
    by blast
  from pluslazy_cls_eats [OF m] obtain w where w: "snd s = w @ snd m"
    "list_all (in_class True [Rng CHR ''A'' CHR ''Z'', Rng CHR ''a'' CHR ''z'', Space]) w" by blast
  from c(2) have "is_letter c" by (rule in_upper_cls)
  moreover from w(2) have "list_all (\<lambda>c. is_letter c \<or> is_space c) w"
    by (auto simp: list_all_iff dest: in_phrase_cls)
  ultimately have "snd st = (c # w) @ snd m \<and> phrase_shape (c # w)"
    using c(1) w(1) by (simp add: phrase_shape_def)
  then show ?thesis by blast
qed

lemma capital_word_eats:
  assumes "s1 \<in> set (rmatch True upper_cls st)" and "m \<in> set (rmatch True (Plus letter_cls) s1)"
  shows "\<exists>g. snd st = g @ snd m \<and> g \<noteq> [] \<and> is_letter (hd g) \<and> list_all is_letter g"
proof -
  from assms(1) have "s1 \<in> set (rmatch True (Cls [Rng CHR ''A'' CHR ''Z'']) st)"
    by (simp add: upper_cls_def)
  from cls_eats [OF this] obtain c where c: "snd st = c # snd s1" "in_class True [Rng CHR ''A'' CHR ''Z''] c"
    by blast
  from assms(2) have "m \<in> set (rmatch True (Plus (Cls [Rng CHR ''A'' CHR ''Z'', Rng CHR ''a'' CHR ''z''])) s1)"
    by (simp add: letter_cls_def)
  from plus_cls_eats [OF this] obtain w where w: "snd s1 = w @ snd m"
    "list_all (in_class True [Rng CHR ''A'' CHR ''Z'', Rng CHR ''a'' CHR ''z'']) w" by blast
  from c(2) have "is_letter c" by (rule in_upper_cls)
  moreover from w(2) have "list_all is_letter w"
    by (auto simp: list_all_iff dest: in_letter_cls)
  ultimately have "snd st = (c # w) @ snd m \<and> c # w \<noteq> [] \<and> is_letter (hd (c # w)) \<and>
      list_all is_letter (c # w)"
    using c(1) w(1) by simp
  then show ?thesis by blast
qed

lemma phrase3_eats:
  assumes "m \<in> set (rmatch True (phrase pattern3) st)"
  shows "\<exists>g. snd st = g @ snd m \<and> phrase_shape g"
proof -
  from assms obtain s1 s2 where s1: "s1 \<in> set (rmatch True upper_cls st)"
    and s2: "s2 \<in> set (rmatch True (Plus letter_cls) s1)"
    and m: "m \<in> set (rmatch True (Opt (seqs [spaces, upper_cls, Plus letter_cls])) s2)"
    by (simp only: pattern3_def pattern.simps seqs.simps seq_mem) blast
  from capital_word_eats [OF s1 s2] obtain g1 where g1: "snd st = g1 @ snd s2" "g1 \<noteq> []"
    "is_letter (hd g1)" "list_all is_letter g1" by blast
  from m have "m = s2 \<or> m \<in> set (rmatch True (seqs [spaces, upper_cls, Plus letter_cls]) s2)"
    by (simp only: opt_mem) blast
  then show ?thesis
  proof
    assume "m = s2"
    with g1 have "snd st = g1 @ snd m \<and> phrase_shape g1"
      by (auto simp: phrase_shape_def list_all_iff)
    then show ?thesis by blast
  next
    assume "m \<in> set (rmatch True (seqs [spaces, upper_cls, Plus letter_cls]) s2)"
    then obtain s3 s4 where s3: "s3 \<in> set (rmatch True spaces s2)"
      and s4: "s4 \<in> set (rmatch True upper_cls s3)"
      and m': "m \<in> set (rmatch True (Plus letter_cls) s4)"
      by (simp only: seqs.simps seq_mem) blast
    from spaces_eats [OF s3] obtain sp where sp: "snd s2 = sp @ snd s3" "list_all is_space sp"
      by blast
    from capital_word_eats [OF s4 m'] obtain g2 where g2: "snd s3 = g2 @ snd m"
      "list_all is_letter g2" by blast
    from g1 sp g2 have "snd st = (g1 @ sp @ g2) @ snd m \<and> phrase_shape (g1 @ sp @ g2)"
      by (auto simp: phrase_shape_def list_all_iff)
    then show ?thesis by blast
  qed
qed

section \<open>The cue before the phrase\<close>

lemma space_not_word: "is_space c \<Longrightarrow> \<not> is_word c"
  by (auto simp: is_space_def is_word_def is_upper_def is_lower_def is_digit_def Let_def)

lemma lowered_letter_word: "is_lower (lower_char c) \<Longrightarrow> is_word c"
  using lower_char_cases [of c] by (auto simp: is_word_def)

lemma cue_word_start:
  assumes "py_lower w \<in> set (''trip'' # cue_words)"
  shows "w \<noteq> [] \<and> is_word (hd w)"
proof -
  from assms obtain c w' where w: "w = c # w'"
    by (cases w) (auto simp: py_lower_def cue_words_def)
  with assms have "is_lower (lower_char c)"
    by (auto simp: py_lower_def cue_words_def is_lower_def)
  with w show ?thesis by (simp add: lowered_letter_word)
qed

lemma boundary_word_start:
  assumes "at_boundary st" and "fst st = lastc None pre" and "snd st = w @ rest"
    and "w \<noteq> []" and "is_word (hd w)"
  shows "word_start pre"
  using assms by (cases w) (auto simp: at_boundary_def lastc_def word_start_def split: if_splits)

lemma after_spaces_word_start:
  "x \<noteq> [] \<Longrightarrow> is_space (last x) \<Longrightarrow> word_start (pre @ x)"
  by (simp add: word_start_def space_not_word)

lemma all_space_last: "sp \<noteq> [] \<Longrightarrow> list_all is_space sp \<Longrightarrow> is_space (last sp)"
  by (simp add: list_all_iff)

lemma opt_word_spaces:
  assumes "m \<in> set (rmatch True (Opt (Seq r spaces)) st)"
  shows "\<exists>x. snd st = x @ snd m \<and> (x = [] \<or> is_space (last x))"
proof -
  from assms have "(\<exists>s \<in> set (rmatch True r st). m \<in> set (rmatch True spaces s)) \<or> m = st"
    by (simp only: opt_mem seq_mem)
  then show ?thesis
  proof
    assume "\<exists>s \<in> set (rmatch True r st). m \<in> set (rmatch True spaces s)"
    then obtain s where s: "s \<in> set (rmatch True r st)" and m: "m \<in> set (rmatch True spaces s)"
      by blast
    from rmatch_eats [OF s] obtain w where w: "snd st = w @ snd s" by blast
    from spaces_eats [OF m] obtain sp where sp: "snd s = sp @ snd m" "sp \<noteq> []" "list_all is_space sp"
      by blast
    from w sp all_space_last [OF sp(2,3)]
    have "snd st = (w @ sp) @ snd m \<and> (w @ sp = [] \<or> is_space (last (w @ sp)))" by simp
    then show ?thesis by blast
  next
    assume "m = st"
    then have "snd st = [] @ snd m \<and> ([] = ([]::string) \<or> is_space (last []))" by simp
    then show ?thesis by blast
  qed
qed

lemma cue_pattern2:
  assumes "s1 \<in> set (rmatch True (cue pattern2) st)" and "fst st = lastc None pre"
  shows "cue_found pre st s1"
proof -
  from assms(1) obtain sa sb where sa: "sa \<in> set (rmatch True WordB st)"
    and sb: "sb \<in> set (rmatch True prep_re sa)" and s1: "s1 \<in> set (rmatch True spaces sb)"
    by (simp only: pattern2_def pattern.simps seqs.simps seq_mem) blast
  from word_boundary [OF sa] have st: "sa = st" "at_boundary st" by auto
  from prep_eats [OF sb] st obtain w where w: "snd st = w @ snd sb"
    "py_lower w \<in> set [''in'', ''at'', ''to'', ''near'']" by blast
  from spaces_eats [OF s1] obtain sp where sp: "snd sb = sp @ snd s1" "sp \<noteq> []" "list_all is_space sp"
    by blast
  from w(2) have cw: "py_lower w \<in> set cue_words" by (auto simp: cue_words_def)
  with cue_word_start [of w] have "w \<noteq> []" "is_word (hd w)" by auto
  from boundary_word_start [OF st(2) assms(2) w(1) this] have "word_start (pre @ [])" by simp
  with w(1) sp cw have "snd st = [] @ w @ sp @ snd s1 \<and> word_start (pre @ []) \<and>
      py_lower w \<in> set cue_words \<and> sp \<noteq> [] \<and> list_all is_space sp" by simp
  then show ?thesis unfolding cue_found_def by blast
qed

lemma cue_pattern1:
  assumes "s1 \<in> set (rmatch True (cue pattern1) st)"
  shows "cue_found pre st s1"
proof -
  from assms(1) obtain sa sb sc sd se sf where sa: "sa \<in> set (rmatch True WordB st)"
    and sb: "sb \<in> set (rmatch True (alts [Lit ''visit'', Lit ''go'', Lit ''travel'', Lit ''trip'']) sa)"
    and sc: "sc \<in> set (rmatch True spaces sb)"
    and sd: "sd \<in> set (rmatch True (Opt (Seq (Lit ''some'') spaces)) sc)"
    and se: "se \<in> set (rmatch True (Opt (Seq (Lit ''places'') spaces)) sd)"
    and sf: "sf \<in> set (rmatch True prep_re se)" and s1: "s1 \<in> set (rmatch True spaces sf)"
    by (simp only: pattern1_def pattern.simps seqs.simps seq_mem) blast
  from word_boundary [OF sa] have st: "sa = st" by simp
  from rmatch_eats [OF sb] st obtain wv where wv: "snd st = wv @ snd sb" by blast
  from spaces_eats [OF sc] obtain sp0 where sp0: "snd sb = sp0 @ snd sc" "sp0 \<noteq> []"
    "list_all is_space sp0" by blast
  from opt_word_spaces [OF sd] obtain x where x: "snd sc = x @ snd sd" "x = [] \<or> is_space (last x)"
    by blast
  from opt_word_spaces [OF se] obtain y where y: "snd sd = y @ snd se" "y = [] \<or> is_space (last y)"
    by blast
  from prep_eats [OF sf] obtain w where w: "snd se = w @ snd sf"
    "py_lower w \<in> set [''in'', ''at'', ''to'', ''near'']" by blast
  from spaces_eats [OF s1] obtain sp where sp: "snd sf = sp @ snd s1" "sp \<noteq> []" "list_all is_space sp"
    by blast
  let ?a = "wv @ sp0 @ x @ y"
  from sp0 x(2) y(2) all_space_last [OF sp0(2,3)] have "?a \<noteq> [] \<and> is_space (last ?a)"
    by (auto simp: last_append)
  then have "word_start (pre @ ?a)" by (simp add: after_spaces_word_start)
  moreover from w(2) have "py_lower w \<in> set cue_words" by (auto simp: cue_words_def)
  moreover from wv sp0 x y w sp have "snd st = ?a @ w @ sp @ snd s1" by simp
  ultimately have "snd st = ?a @ w @ sp @ snd s1 \<and> word_start (pre @ ?a) \<and>
      py_lower w \<in> set cue_words \<and> sp \<noteq> [] \<and> list_all is_space sp"
    using sp by simp
  then show ?thesis unfolding cue_found_def by blast
qed

lemma cue_pattern3:
  assumes "s1 \<in> set (rmatch True (cue pattern3) st)" and "fst st = lastc None pre"
  shows "cue_found pre st s1"
proof -
  from assms(1) obtain sa sb sc where sa: "sa \<in> set (rmatch True WordB st)"
    and sb: "sb \<in> set (rmatch True (alts [Lit ''visit'', Lit ''go'', Lit ''travel'']) sa)"
    and sc: "sc \<in> set (rmatch True spaces sb)"
    and s1: "s1 \<in> set (rmatch True (Opt (Seq (Lit ''to'') spaces)) sc)"
    by (simp only: pattern3_def pattern.simps seqs.simps seq_mem) blast
  from word_boundary [OF sa] have st: "sa = st" "at_boundary st" by auto
  from verbs_eats [OF sb] st obtain wv where wv: "snd st = wv @ snd sb"
    "py_lower wv \<in> set [''visit'', ''go'', ''travel'']" by blast
  from spaces_eats [OF sc] obtain sp0 where sp0: "snd sb = sp0 @ snd sc" "sp0 \<noteq> []"
    "list_all is_space sp0" by blast
  from wv(2) have cv: "py_lower wv \<in> set cue_words" by (auto simp: cue_words_def)
  from s1 have "(\<exists>s \<in> set (rmatch True (Lit ''to'') sc). s1 \<in> set (rmatch True spaces s)) \<or> s1 = sc"
    by (simp only: opt_mem seq_mem)
  then show ?thesis
  proof
    assume "\<exists>s \<in> set (rmatch True (Lit ''to'') sc). s1 \<in> set (rmatch True spaces s)"
    then obtain s where s: "s \<in> set (rmatch True (Lit ''to'') sc)"
      and m: "s1 \<in> set (rmatch True spaces s)" by blast
    from lit_eats [OF s] obtain wt where wt: "snd sc = wt @ snd s" "py_lower wt = ''to''"
      by (auto simp: lower_literals)
    from spaces_eats [OF m] obtain sp where sp: "snd s = sp @ snd s1" "sp \<noteq> []" "list_all is_space sp"
      by blast
    let ?a = "wv @ sp0"
    from sp0 all_space_last [OF sp0(2,3)] have "word_start (pre @ ?a)"
      by (simp add: after_spaces_word_start)
    moreover from wt(2) have "py_lower wt \<in> set cue_words" by (simp add: cue_words_def)
    moreover from wv(1) sp0(1) wt(1) sp(1) have "snd st = ?a @ wt @ sp @ snd s1" by simp
    ultimately have "snd st = ?a @ wt @ sp @ snd s1 \<and> word_start (pre @ ?a) \<and>
        py_lower wt \<in> set cue_words \<and> sp \<noteq> [] \<and> list_all is_space sp"
      using sp by simp
    then show ?thesis unfolding cue_found_def by blast
  next
    assume "s1 = sc"
    from cv cue_word_start [of wv] have "wv \<noteq> []" "is_word (hd wv)" by auto
    from boundary_word_start [OF st(2) assms(2) wv(1) this] have "word_start (pre @ [])" by simp
    with wv(1) sp0 cv \<open>s1 = sc\<close> have "snd st = [] @ wv @ sp0 @ snd s1 \<and> word_start (pre @ []) \<and>
        py_lower wv \<in> set cue_words \<and> sp0 \<noteq> [] \<and> list_all is_space sp0" by simp
    then show ?thesis unfolding cue_found_def by blast
  qed
qed

section \<open>The regular-expression tier\<close>

lemma consumed_eq: "snd s1 = w @ snd s2 \<Longrightarrow> consumed s1 s2 = w"
  by (simp add: consumed_def)

lemma match_pattern_found:
  assumes "g \<in> set (match_pattern True p st)" and "p \<in> set patterns" and "fst st = lastc None pre"
  shows "follows_cue (pre @ snd st) g \<and> phrase_shape g"
proof -
  from assms(1) obtain s1 s2 s3 where s1: "s1 \<in> set (rmatch True (cue p) st)"
    and s2: "s2 \<in> set (rmatch True (phrase p) s1)"
    and s3: "s3 \<in> set (rmatch True (stop p) s2)"
    and g: "g = consumed s1 s2"
    by (auto simp: match_pattern_def)
  from assms(2) have p: "p = pattern1 \<or> p = pattern2 \<or> p = pattern3"
    by (simp add: patterns_def)
  with s1 assms(3) have "cue_found pre st s1"
    by (auto intro: cue_pattern1 cue_pattern2 cue_pattern3)
  then obtain a cw sp where c: "snd st = a @ cw @ sp @ snd s1" "word_start (pre @ a)"
    "py_lower cw \<in> set cue_words" "sp \<noteq> []" "list_all is_space sp"
    unfolding cue_found_def by blast
  from p s2 have "\<exists>g'. snd s1 = g' @ snd s2 \<and> phrase_shape g'"
    by (auto simp: pattern1_def pattern2_def intro: lazy_phrase_eats phrase3_eats)
  then obtain g' where g': "snd s1 = g' @ snd s2" "phrase_shape g'" by blast
  with g have gg: "g = g'" by (simp add: consumed_eq)
  from p s3 have "s3 \<in> set (rmatch True stop_re s2)"
    by (auto simp: pattern1_def pattern2_def pattern3_def)
  from stop_eats [OF this]
  have post: "snd s2 = [] \<or> snd s2 = [CHR 0x0A] \<or> hd (snd s2) \<in> set '',.!?''" .
  from c g' gg have "pre @ snd st = (pre @ a) @ cw @ sp @ g @ snd s2" by simp
  with c post have "follows_cue (pre @ snd st) g"
    unfolding follows_cue_def word_start_def by blast
  with g' gg show ?thesis by simp
qed

lemma search_group_found:
  "search_group ic p prev s = Some g \<Longrightarrow> prev = lastc None pre \<Longrightarrow>
     \<exists>pre' s'. pre @ s = pre' @ s' \<and> g \<in> set (match_pattern ic p (lastc None pre', s'))"
proof (induction s arbitrary: prev pre)
  case Nil
  then have "g \<in> set (match_pattern ic p (lastc None pre, []))"
    by (auto split: list.splits)
  then show ?case by blast
next
  case (Cons c cs)
  show ?case
  proof (cases "match_pattern ic p (prev, c # cs)")
    case Nil
    with Cons.prems have "search_group ic p (Some c) cs = Some g" by simp
    from Cons.IH [OF this, of "pre @ [c]"] obtain pre' s'
      where "(pre @ [c]) @ cs = pre' @ s'" "g \<in> set (match_pattern ic p (lastc None pre', s'))"
      by (auto simp: lastc_def)
    then have "pre @ c # cs = pre' @ s' \<and> g \<in> set (match_pattern ic p (lastc None pre', s'))"
      by simp
    then show ?thesis by blast
  next
    case (Cons g' gs)
    with Cons.prems have "g \<in> set (match_pattern ic p (lastc None pre, c # cs))" by simp
    then show ?thesis by blast
  qed
qed

lemma searched_phrase:
  assumes "re_search_group True p t = Some g" and "p \<in> set patterns"
  shows "follows_cue t g \<and> phrase_shape g"
proof -
  from assms(1) have "search_group True p None t = Some g" by (simp add: re_search_group_def)
  from search_group_found [OF this, of "[]"] obtain pre' s'
    where t: "t = pre' @ s'" and g: "g \<in> set (match_pattern True p (lastc None pre', s'))"
    by (auto simp: lastc_def)
  from match_pattern_found [OF g assms(2), of pre'] t show ?thesis by simp
qed

lemma try_patterns_filtered:
  "try_patterns ps t =
     map_option py_lower
       (List.find (\<lambda>c. 2 < length c) (List.map_filter (\<lambda>p. filtered_phrase p t) ps))"
  by (induction ps)
    (auto simp: List.map_filter_simps filtered_phrase_def clean_candidate_kept Let_def
      split: option.splits)

lemma py_replace_same: "py_replace s c c = s"
  by (simp add: py_replace_def map_idI)

lemma tier_value:
  assumes "try_patterns ps t = Some v"
  shows "2 < length v \<and> py_lower v = v \<and> list_all (\<lambda>w. w \<notin> set filler_words) (py_split v)"
  using assms
proof (induction ps)
  case Nil
  then show ?case by simp
next
  case (Cons p ps)
  show ?case
  proof (cases "re_search_group True p t")
    case None
    with Cons show ?thesis by simp
  next
    case (Some g)
    show ?thesis
    proof (cases "2 < length (clean_candidate g)")
      case False
      with Some Cons show ?thesis by (simp add: Let_def)
    next
      case True
      with Some Cons.prems have v: "v = py_lower (py_join '' '' (kept_words g))"
        by (auto simp: Let_def clean_candidate_kept split: if_splits)
      with True have "2 < length v" by (simp add: length_py_lower clean_candidate_kept)
      moreover from v have "py_lower v = v" by (simp add: py_lower_idem)
      moreover from v have "list_all (\<lambda>w. w \<notin> set filler_words) (py_split v)"
        using lowered_phrase_no_filler [of _ g] by (auto simp: list_all_iff)
      ultimately show ?thesis by simp
    qed
  qed
qed


text \<open>
  C4, as amended: the three patterns are applied in this order to the trimmed text.
  Each matches a phrase of letters and white space that begins with a letter, follows
  a cue word and white space, and is followed by one of \<open>,.!?\<close> or the end. The filler
  words of the phrase are removed and the remaining words joined by single blanks; the
  first pattern whose phrase is then longer than two characters decides, and its
  phrase is returned in lower case: it holds no filler word, and it is what
  \<open>extract_location_fallback\<close> returns. A pattern that matches with a shorter phrase is
  passed over like one that does not match, and the later patterns are still tried.
\<close>

theorem regex_tier_amended:
  "try_patterns patterns (py_strip text) =
     map_option py_lower
       (List.find (\<lambda>c. 2 < length c)
          (List.map_filter (\<lambda>p. filtered_phrase p (py_strip text)) [pattern1, pattern2, pattern3])) \<and>
   (\<forall>p g. p \<in> set patterns \<and> re_search_group True p (py_strip text) = Some g \<longrightarrow>
      follows_cue (py_strip text) g \<and> phrase_shape g) \<and>
   (\<forall>v. try_patterns patterns (py_strip text) = Some v \<longrightarrow>
      2 < length v \<and> py_lower v = v \<and> list_all (\<lambda>w. w \<notin> set filler_words) (py_split v) \<and>
      extract_location_fallback text = Some v)"
proof (intro conjI allI impI)
  show "try_patterns patterns (py_strip text) =
     map_option py_lower
       (List.find (\<lambda>c. 2 < length c)
          (List.map_filter (\<lambda>p. filtered_phrase p (py_strip text)) [pattern1, pattern2, pattern3]))"
    using try_patterns_filtered [of patterns "py_strip text"] by (simp only: patterns_def)
next
  fix p g
  assume "p \<in> set patterns \<and> re_search_group True p (py_strip text) = Some g"
  then show "follows_cue (py_strip text) g" "phrase_shape g"
    using searched_phrase [of p "py_strip text" g] by auto
next
  fix v
  assume v: "try_patterns patterns (py_strip text) = Some v"
  from tier_value [OF v]
  show "2 < length v" "py_lower v = v" "list_all (\<lambda>w. w \<notin> set filler_words) (py_split v)"
    by auto
  from v show "extract_location_fallback text = Some v"
    by (simp add: extract_location_fallback_def py_replace_same)
qed

theorem regex_tier_amended_witness:
  "re_search_group True pattern1 (py_strip ''  Please go to the Hague!  '') = Some ''the Hague'' \<and>
   follows_cue (py_strip ''  Please go to the Hague!  '') ''the Hague'' \<and>
   phrase_shape ''the Hague'' \<and>
   try_patterns patterns (py_strip ''  Please go to the Hague!  '') = Some ''hague'' \<and>
   extract_location_fallback ''  Please go to the Hague!  '' = Some ''hague''"
proof -
  have r: "re_search_group True pattern1 (py_strip ''  Please go to the Hague!  '') = Some ''the Hague''"
    by code_simp
  have t: "try_patterns patterns (py_strip ''  Please go to the Hague!  '') = Some ''hague''"
    by code_simp
  have p: "pattern1 \<in> set patterns" by (simp add: patterns_def)
  note th = regex_tier_amended [of "''  Please go to the Hague!  ''"]
  from th p r have "follows_cue (py_strip ''  Please go to the Hague!  '') ''the Hague'' \<and>
      phrase_shape ''the Hague''" by blast
  moreover from th t have "extract_location_fallback ''  Please go to the Hague!  '' = Some ''hague''"
    by blast
  ultimately show ?thesis using r t by simp
qed

text \<open>
  C4 as it is worded, with the first matching pattern deciding, fails on
  \<open>in Paris, go to LA\<close>: the first pattern matches \<open>go to LA\<close>, whose phrase \<open>LA\<close> is too
  short, and the second pattern then returns \<open>paris\<close>.
\<close>

theorem regex_tier_counterexample:
  "try_patterns patterns (py_strip ''in Paris, go to LA'') = Some ''paris'' \<and>
   first_match_wins patterns (py_strip ''in Paris, go to LA'') = None"
  by code_simp

section \<open>A capitalised city after a cue word\<close>

text \<open>
  C5: a query with a capitalised city name after a cue word should yield that city in
  lower case, \<open>paris\<close> for \<open>I want to visit Paris\<close>. Without the entity recogniser the
  code returns \<open>visit paris\<close>: under \<open>re.IGNORECASE\<close> the class \<open>[A-Z]\<close> of the second
  pattern accepts the \<open>v\<close> of \<open>visit\<close> after the cue \<open>to\<close>.
\<close>

theorem visit_paris_fallback:
  "re_search_group True pattern1 ''I want to visit Paris'' = None \<and>
   re_search_group True pattern2 ''I want to visit Paris'' = Some ''visit Paris'' \<and>
   extract_location None ''I want to visit Paris'' = Some ''visit paris''"
  by code_simp

section \<open>The preference among recognised entities\<close>

text \<open>
  What the code computes: the keyword is looked for before the first place where the
  entity's text stands in the lowercased text, which need not be the entity.
\<close>

lemma first_keyword_loc_find:
  "first_keyword_loc low locs = map_option py_lower (List.find (keyword_before low) locs)"
  by (induction locs) auto

lemma nlp_path_result:
  assumes "entity_locations (model text) \<noteq> []"
  shows "extract_location_nlp (Some model) text =
           Some (py_lower (case List.find (keyword_before (py_lower text)) (entity_locations (model text)) of
                             Some loc \<Rightarrow> loc
                           | None \<Rightarrow> last (entity_locations (model text))))"
  using assms
  by (simp add: extract_location_nlp_def Let_def first_keyword_loc_find split: option.splits)

text \<open>
  C6: among the recognised entities the first one preceded by a keyword should be
  returned. In \<open>Rome is lovely. I will fly to Rome, then Paris\<close> the second entity
  \<open>Rome\<close> follows \<open>to\<close>, but the code looks before the first \<open>rome\<close> of the text, finds
  nothing there, and returns \<open>paris\<close>.
\<close>

theorem repeated_entity_text:
  "extract_location_nlp
     (Some (\<lambda>t. [(''Rome'', ''GPE''), (''Rome'', ''GPE''), (''Paris'', ''GPE'')]))
     ''Rome is lovely. I will fly to Rome, then Paris'' = Some ''paris'' \<and>
   preferred_entity ''Rome is lovely. I will fly to Rome, then Paris''
     [''Rome'', ''Rome'', ''Paris''] = ''rome''"
  by code_simp

section \<open>Intent detection: the default\<close>

text \<open>
  C7: a query whose lowercased text contains no weather keyword and no places keyword
  is classified as wants_weather = false, wants_places = true.
\<close>

theorem detect_intent_default:
  assumes "\<not> contains_keyword weather_keywords query"
    and "\<not> contains_keyword places_keywords query"
  shows "detect_intent query = (False, True)"
  using assms by (simp add: intent_cases)

theorem detect_intent_default_witness:
  "\<not> contains_keyword weather_keywords ''Tell me about Berlin'' \<and>
   \<not> contains_keyword places_keywords ''Tell me about Berlin'' \<and>
   detect_intent ''Tell me about Berlin'' = (False, True)"
proof -
  have w: "\<not> contains_keyword weather_keywords ''Tell me about Berlin''"
    by code_simp
  have p: "\<not> contains_keyword places_keywords ''Tell me about Berlin''"
    by code_simp
  from detect_intent_default [OF w p] w p show ?thesis by simp
qed

section \<open>The orchestrator's replies\<close>

text \<open>
  C1: when the lowercased query contains a weather keyword and no places keyword, and
  extraction returns a location, only the weather agent is called, and the reply is
  exactly what it returns for that location.
\<close>

theorem weather_only:
  assumes "contains_keyword weather_keywords query"
    and "\<not> contains_keyword places_keywords query"
    and "entities_nonempty nlp query"
    and "extract_location nlp query = Some location"
  shows "handle_user_query nlp get_weather_info get_places_info query =
           \<lparr>reply = get_weather_info location, calls = [WeatherCall location]\<rparr>"
proof -
  from assms(3,4) have "location \<noteq> []" by (rule extract_location_nonempty)
  with assms(1,2,4) show ?thesis by (simp add: handle_located)
qed

theorem weather_only_witness:
  "contains_keyword weather_keywords ''What's the weather in Tokyo?'' \<and>
   \<not> contains_keyword places_keywords ''What's the weather in Tokyo?'' \<and>
   entities_nonempty None ''What's the weather in Tokyo?'' \<and>
   extract_location None ''What's the weather in Tokyo?'' = Some ''tokyo'' \<and>
   handle_user_query None (\<lambda>l. ''Weather in '' @ l) (\<lambda>l. ''Places in '' @ l)
       ''What's the weather in Tokyo?'' =
     \<lparr>reply = ''Weather in tokyo'', calls = [WeatherCall ''tokyo'']\<rparr>"
proof -
  have w: "contains_keyword weather_keywords ''What's the weather in Tokyo?''"
    by code_simp
  have p: "\<not> contains_keyword places_keywords ''What's the weather in Tokyo?''"
    by code_simp
  have n: "entities_nonempty None ''What's the weather in Tokyo?''"
    by (simp add: entities_nonempty_def)
  have l: "extract_location None ''What's the weather in Tokyo?'' = Some ''tokyo''"
    by code_simp
  from weather_only [OF w p n l, of "\<lambda>l. ''Weather in '' @ l" "\<lambda>l. ''Places in '' @ l"] w p n l
  show ?thesis by simp
qed

text \<open>
  C2: when the lowercased query contains a weather keyword and a places keyword, and
  extraction returns a location, the reply is the weather agent's text, a blank line,
  and the places agent's text, in that order.
\<close>

theorem weather_then_places:
  assumes "contains_keyword weather_keywords query"
    and "contains_keyword places_keywords query"
    and "entities_nonempty nlp query"
    and "extract_location nlp query = Some location"
  shows "handle_user_query nlp get_weather_info get_places_info query =
           \<lparr>reply = get_weather_info location @ [CHR 0x0A, CHR 0x0A] @ get_places_info location,
            calls = [WeatherCall location, PlacesCall location]\<rparr>"
proof -
  from assms(3,4) have "location \<noteq> []" by (rule extract_location_nonempty)
  with assms(1,2,4) show ?thesis by (simp add: handle_located)
qed

theorem weather_then_places_witness:
  "contains_keyword weather_keywords ''weather and places in Rome'' \<and>
   contains_keyword places_keywords ''weather and places in Rome'' \<and>
   entities_nonempty (Some (\<lambda>t. [(''Rome'', ''GPE'')])) ''weather and places in Rome'' \<and>
   extract_location (Some (\<lambda>t. [(''Rome'', ''GPE'')])) ''weather and places in Rome'' = Some ''rome'' \<and>
   handle_user_query (Some (\<lambda>t. [(''Rome'', ''GPE'')])) (\<lambda>l. ''Weather in '' @ l) (\<lambda>l. ''Places in '' @ l)
       ''weather and places in Rome'' =
     \<lparr>reply = ''Weather in rome'' @ [CHR 0x0A, CHR 0x0A] @ ''Places in rome'',
      calls = [WeatherCall ''rome'', PlacesCall ''rome'']\<rparr>"
proof -
  have w: "contains_keyword weather_keywords ''weather and places in Rome''"
    by code_simp
  have p: "contains_keyword places_keywords ''weather and places in Rome''"
    by code_simp
  have n: "entities_nonempty (Some (\<lambda>t. [(''Rome'', ''GPE'')])) ''weather and places in Rome''"
    by (simp add: entities_nonempty_def)
  have l: "extract_location (Some (\<lambda>t. [(''Rome'', ''GPE'')])) ''weather and places in Rome'' = Some ''rome''"
    by code_simp
  from weather_then_places [OF w p n l, of "\<lambda>l. ''Weather in '' @ l" "\<lambda>l. ''Places in '' @ l"] w p n l
  show ?thesis by simp
qed

lemma newline_not_in_messages:
  "CHR 0x0A \<notin> set no_location_message" "CHR 0x0A \<notin> set no_intent_message"
  by (simp_all add: no_location_message_def no_intent_message_def)

lemma joined_not_message:
  assumes "CHR 0x0A \<notin> set msg"
  shows "a @ [CHR 0x0A, CHR 0x0A] @ b \<noteq> msg"
  using assms by auto

text \<open>
  C3: the reply is the fixed request for a city name exactly when extraction returns
  no location, and then no agent is called, whatever keywords the query contains. The
  agents are taken not to produce that request themselves.
\<close>

theorem no_location_iff_absent:
  assumes "entities_nonempty nlp query"
    and "\<And>l. get_weather_info l \<noteq> no_location_message"
    and "\<And>l. get_places_info l \<noteq> no_location_message"
  shows "(reply (handle_user_query nlp get_weather_info get_places_info query) = no_location_message
            \<longleftrightarrow> extract_location nlp query = None) \<and>
         (extract_location nlp query = None \<longrightarrow>
            calls (handle_user_query nlp get_weather_info get_places_info query) = [])"
proof (cases "extract_location nlp query")
  case None
  then show ?thesis by (simp add: handle_unlocated)
next
  case (Some loc)
  with assms(1) have "loc \<noteq> []" by (rule extract_location_nonempty)
  with Some assms(2,3) joined_not_message [OF newline_not_in_messages(1)]
  show ?thesis by (simp add: handle_located Let_def)
qed

theorem no_location_iff_absent_witness:
  "entities_nonempty None ''hello there'' \<and>
   (\<forall>l. ''Weather in '' @ l \<noteq> no_location_message) \<and>
   (\<forall>l. ''Places in '' @ l \<noteq> no_location_message) \<and>
   extract_location None ''hello there'' = None \<and>
   handle_user_query None (\<lambda>l. ''Weather in '' @ l) (\<lambda>l. ''Places in '' @ l) ''hello there'' =
     \<lparr>reply = no_location_message, calls = []\<rparr>"
proof -
  have n: "entities_nonempty None ''hello there''"
    by (simp add: entities_nonempty_def)
  have w: "\<And>l. ''Weather in '' @ l \<noteq> no_location_message"
    by (simp add: no_location_message_def)
  have p: "\<And>l. ''Places in '' @ l \<noteq> no_location_message"
    by (simp add: no_location_message_def)
  have l: "extract_location None ''hello there'' = None"
    by code_simp
  from no_location_iff_absent [of None "''hello there''" "\<lambda>l. ''Weather in '' @ l" "\<lambda>l. ''Places in '' @ l", OF n w p] l
  have "reply (handle_user_query None (\<lambda>l. ''Weather in '' @ l) (\<lambda>l. ''Places in '' @ l) ''hello there'') = no_location_message"
    and "calls (handle_user_query None (\<lambda>l. ''Weather in '' @ l) (\<lambda>l. ''Places in '' @ l) ''hello there'') = []"
    by simp_all
  then have "handle_user_query None (\<lambda>l. ''Weather in '' @ l) (\<lambda>l. ''Places in '' @ l) ''hello there'' =
     \<lparr>reply = no_location_message, calls = []\<rparr>"
    by (cases "handle_user_query None (\<lambda>l. ''Weather in '' @ l) (\<lambda>l. ''Places in '' @ l) ''hello there''") simp
  with n w p l show ?thesis by simp
qed

lemma messages_differ: "no_location_message \<noteq> no_intent_message"
  by (simp add: no_location_message_def no_intent_message_def)

text \<open>
  C8: \<open>detect_intent\<close> always sets at least one of the two flags, so the list of
  responses is never empty when the orchestrator tests it, and the reply is never the
  fixed prompt of that branch (the agents are taken not to produce that prompt
  themselves).
\<close>

theorem no_intent_branch_unreachable:
  "(fst (detect_intent query) \<or> snd (detect_intent query)) \<and>
   fst (dispatch get_weather_info get_places_info location (detect_intent query)) \<noteq> [] \<and>
   ((\<forall>l. get_weather_info l \<noteq> no_intent_message \<and> get_places_info l \<noteq> no_intent_message) \<longrightarrow>
      reply (handle_user_query nlp get_weather_info get_places_info query) \<noteq> no_intent_message)"
proof (intro conjI impI)
  show "fst (detect_intent query) \<or> snd (detect_intent query)"
    by (auto simp: intent_cases)
  show "fst (dispatch get_weather_info get_places_info location (detect_intent query)) \<noteq> []"
    by (auto simp: intent_cases dispatch_cases)
  assume agents: "\<forall>l. get_weather_info l \<noteq> no_intent_message \<and> get_places_info l \<noteq> no_intent_message"
  show "reply (handle_user_query nlp get_weather_info get_places_info query) \<noteq> no_intent_message"
  proof (cases "extract_location nlp query")
    case None
    then show ?thesis by (simp add: handle_unlocated messages_differ)
  next
    case (Some loc)
    show ?thesis
    proof (cases "loc = []")
      case True
      with Some show ?thesis
        by (simp add: handle_user_query_def falsy_def messages_differ)
    next
      case False
      with Some agents joined_not_message [OF newline_not_in_messages(2)]
      show ?thesis by (simp add: handle_located Let_def)
    qed
  qed
qed

theorem no_intent_branch_unreachable_witness:
  "(\<forall>l. ''Weather in '' @ l \<noteq> no_intent_message \<and> ''Places in '' @ l \<noteq> no_intent_message) \<and>
   detect_intent ''Tell me about Berlin'' = (False, True) \<and>
   fst (dispatch (\<lambda>l. ''Weather in '' @ l) (\<lambda>l. ''Places in '' @ l) ''berlin''
          (detect_intent ''Tell me about Berlin'')) \<noteq> [] \<and>
   reply (handle_user_query None (\<lambda>l. ''Weather in '' @ l) (\<lambda>l. ''Places in '' @ l)
            ''Tell me about Berlin'') \<noteq> no_intent_message"
proof -
  have a: "\<forall>l. ''Weather in '' @ l \<noteq> no_intent_message \<and> ''Places in '' @ l \<noteq> no_intent_message"
    by (simp add: no_intent_message_def)
  have d: "detect_intent ''Tell me about Berlin'' = (False, True)"
    by code_simp
  from no_intent_branch_unreachable [of "''Tell me about Berlin''" "\<lambda>l. ''Weather in '' @ l"
      "\<lambda>l. ''Places in '' @ l" "''berlin''" None] a d
  show ?thesis by simp
qed

section \<open>The fallback never returns an empty location\<close>

text \<open>
  C10: a value that \<open>extract_location_fallback\<close> returns, from whichever tier, is a
  string that is not empty and equals its own lowercasing; so the truth test on it
  fails exactly when nothing was returned.
\<close>

theorem fallback_value_truthy:
  "(extract_location_fallback text = Some v \<longrightarrow> v \<noteq> [] \<and> py_lower v = v) \<and>
   (falsy (extract_location_fallback text) \<longleftrightarrow> extract_location_fallback text = None)"
proof -
  have "falsy (extract_location_fallback text) \<longleftrightarrow> extract_location_fallback text = None"
    using fallback_result [of "text"]
    by (cases "extract_location_fallback text") (auto simp: falsy_def)
  with fallback_result [of "text" v] show ?thesis by blast
qed

theorem fallback_value_truthy_witness:
  "extract_location_fallback ''Tell me about Berlin'' = Some ''berlin'' \<and>
   ''berlin'' \<noteq> [] \<and> py_lower ''berlin'' = ''berlin'' \<and>
   \<not> falsy (extract_location_fallback ''Tell me about Berlin'')"
proof -
  have e: "extract_location_fallback ''Tell me about Berlin'' = Some ''berlin''"
    by code_simp
  from fallback_value_truthy [of "''Tell me about Berlin''" "''berlin''"] e
  show ?thesis by simp
qed

end
